theory Spec2Isabelle
  imports Main
begin

section \<open>pysmartnode: component registry, network-init drain and discovery messages\<close>

text \<open>
  The development embeds \<^verbatim>\<open>pysmartnode/utils/component/__init__.py\<close> (class
  \<^verbatim>\<open>ComponentBase\<close> with the module globals \<^verbatim>\<open>_components\<close> and
  \<^verbatim>\<open>_init_queue_start\<close>) and the friendly-name handling of the constructor in
  \<^verbatim>\<open>pysmartnode/components/sensors/pms5003.py\<close>.

  Python objects live in an explicit store: an address is a natural number, the store
  maps every address to the attributes of the object there, and a reference that may be
  \<^verbatim>\<open>None\<close> is an \<open>addr option\<close>. Calls to collaborators whose modules are
  not part of the sources (the MQTT client, the logger) and calls of overridable hooks are
  recorded, in order, in a trace.
\<close>

subsection \<open>Python values and string formatting\<close>

datatype py_value = PyNone | PyBool bool

fun truthy :: "py_value \<Rightarrow> bool" where
  "truthy PyNone = False"
| "truthy (PyBool b) = b"

text \<open>
  \<^verbatim>\<open>template.format(*args)\<close> for the templates of this code base: every replacement
  field is \<^verbatim>\<open>{!s}\<close> (automatic numbering, \<^verbatim>\<open>str\<close> conversion, which is the
  identity on strings), \<^verbatim>\<open>{{\<close> and \<^verbatim>\<open>}}\<close> are escaped braces. The result is
  \<open>None\<close> where Python raises (a field without an argument left, a single closing
  brace) and for any other form of field. Surplus arguments are ignored, as in Python.
\<close>

function format_s :: "string \<Rightarrow> string list \<Rightarrow> string option" where
  "format_s [] args = Some []"
| "format_s (c # cs) args =
     (if c = CHR ''{'' then
        (if take 1 cs = ''{'' then map_option ((#) CHR ''{'') (format_s (drop 1 cs) args)
         else if take 3 cs = ''!s}'' then
           (case args of
              [] \<Rightarrow> None
            | a # as \<Rightarrow> map_option ((@) a) (format_s (drop 3 cs) as))
         else None)
      else if c = CHR ''}'' then
        (if take 1 cs = ''}'' then map_option ((#) CHR ''}'') (format_s (drop 1 cs) args)
         else None)
      else map_option ((#) c) (format_s cs args))"
  by pat_completeness auto
termination
  by (relation "measure (\<lambda>(t, a). length t)") auto

subsection \<open>Collaborators\<close>

type_synonym addr = nat

datatype event =
    Unsubscribe addr                      \<comment> \<open>\<^verbatim>\<open>_mqtt.unsubscribe(None, self)\<close>\<close>
  | AsyncLog string "string list"         \<comment> \<open>\<^verbatim>\<open>config._log.asyncLog(level, *message, timeout=5)\<close>\<close>
  | LogError string                       \<comment> \<open>\<^verbatim>\<open>config._log.error(message)\<close>\<close>
  | Publish string string nat bool        \<comment> \<open>\<^verbatim>\<open>_mqtt.publish(topic, msg, qos=, retain=)\<close>\<close>
  | InitNetwork addr                      \<comment> \<open>the drain calls \<^verbatim>\<open>c._init_network()\<close>\<close>
  | Discovery addr bool                   \<comment> \<open>\<^verbatim>\<open>self._discovery(register)\<close> is called\<close>

text \<open>A message handed to \<^verbatim>\<open>_mqtt.publish\<close>: topic, payload, qos and retain flag.\<close>

type_synonym message = "string \<times> string \<times> nat \<times> bool"

fun publish :: "message \<Rightarrow> event" where
  "publish (topic, msg, qos, retain) = Publish topic msg qos retain"

text \<open>
  The modules \<^verbatim>\<open>config\<close>, \<^verbatim>\<open>sys_vars\<close>, \<^verbatim>\<open>definitions\<close> and the MQTT
  client are not among the sources; what the code reads from them is a parameter.
\<close>

record env =
  MQTT_DISCOVERY_ENABLED :: bool          \<comment> \<open>\<^verbatim>\<open>config.MQTT_DISCOVERY_ENABLED\<close>\<close>
  MQTT_DISCOVERY_PREFIX :: string         \<comment> \<open>\<^verbatim>\<open>config.MQTT_DISCOVERY_PREFIX\<close>\<close>
  MQTT_HOME :: string                     \<comment> \<open>\<^verbatim>\<open>config.MQTT_HOME\<close>\<close>
  MQTT_AVAILABILITY_SUBTOPIC :: string    \<comment> \<open>\<^verbatim>\<open>config.MQTT_AVAILABILITY_SUBTOPIC\<close>\<close>
  getDeviceID :: string                   \<comment> \<open>\<^verbatim>\<open>sys_vars.getDeviceID()\<close>\<close>
  getDeviceDiscovery :: string            \<comment> \<open>\<^verbatim>\<open>sys_vars.getDeviceDiscovery()\<close>\<close>
  isDeviceTopic :: "string \<Rightarrow> bool"       \<comment> \<open>\<^verbatim>\<open>_mqtt.isDeviceTopic(topic)\<close>\<close>
  getRealTopic :: "string \<Rightarrow> string"      \<comment> \<open>\<^verbatim>\<open>_mqtt.getRealTopic(topic)\<close>\<close>
  DISCOVERY_BASE :: string                \<comment> \<open>template of \<^verbatim>\<open>definitions\<close>, seven fields\<close>
  DISCOVERY_AVAILABILITY :: string        \<comment> \<open>template of \<^verbatim>\<open>definitions\<close>, three fields\<close>
  getComponentName :: "addr \<Rightarrow> string"    \<comment> \<open>\<^verbatim>\<open>config.getComponentName(component)\<close>\<close>
  getComponent :: "string \<Rightarrow> addr option"  \<comment> \<open>\<^verbatim>\<open>config.getComponent(name)\<close>: a component or not\<close>

subsection \<open>Discovery topic and discovery message\<close>

definition getDiscoveryTopic :: "env \<Rightarrow> string \<Rightarrow> string \<Rightarrow> string option" where
  "getDiscoveryTopic e component_type name =
     format_s ''{!s}/{!s}/{!s}/{!s}/config''
       [MQTT_DISCOVERY_PREFIX e, component_type, getDeviceID e, name]"

definition composeAvailability :: "env \<Rightarrow> string option" where
  "composeAvailability e =
     format_s (DISCOVERY_AVAILABILITY e)
       [MQTT_HOME e, getDeviceID e, MQTT_AVAILABILITY_SUBTOPIC e]"

text \<open>
  The positional arguments that \<^verbatim>\<open>_composeDiscoveryMsg\<close> hands to
  \<^verbatim>\<open>DISCOVERY_BASE.format\<close>, in order. \<^verbatim>\<open>friendly_name or name\<close> takes
  \<^verbatim>\<open>name\<close> for \<^verbatim>\<open>None\<close> and for the empty string.
  \<^verbatim>\<open>isDeviceTopic\<close> returns a truth value, on which \<^verbatim>\<open>is False\<close> is
  negation.
\<close>

definition composeDiscoveryArgs ::
  "env \<Rightarrow> string \<Rightarrow> string \<Rightarrow> string \<Rightarrow> string option \<Rightarrow> bool \<Rightarrow> string list option" where
  "composeDiscoveryArgs e component_topic name component_type_discovery friendly_name no_avail =
     (let friendly_name' = (case friendly_name of
                              None \<Rightarrow> name
                            | Some f \<Rightarrow> if f = [] then name else f);
          component_topic' = (if \<not> isDeviceTopic e component_topic then component_topic
                              else getRealTopic e component_topic)
      in map_option
           (\<lambda>avail. [component_topic', friendly_name', getDeviceID e, name, avail,
                      component_type_discovery, getDeviceDiscovery e])
           (if no_avail then Some [] else composeAvailability e))"

definition composeDiscoveryMsg ::
  "env \<Rightarrow> string \<Rightarrow> string \<Rightarrow> string \<Rightarrow> string option \<Rightarrow> bool \<Rightarrow> string option" where
  "composeDiscoveryMsg e component_topic name component_type_discovery friendly_name no_avail =
     (case composeDiscoveryArgs e component_topic name component_type_discovery
             friendly_name no_avail of
        None \<Rightarrow> None
      | Some args \<Rightarrow> format_s (DISCOVERY_BASE e) args)"



subsection \<open>The store, the registry and the coroutines\<close>

text \<open>
  The attributes of a \<^verbatim>\<open>ComponentBase\<close> object. \<open>comp_count\<close> is
  \<^verbatim>\<open>self._count\<close>, \<open>discover\<close> is \<^verbatim>\<open>self.__discover\<close>, and
  \<open>discovery\<close> is the \<^verbatim>\<open>_discovery\<close> method of the object's class, given by the
  messages it publishes for either value of \<^verbatim>\<open>register\<close>: subclasses override
  it, the base class does nothing.
\<close>

record comp =
  next_component :: "addr option"
  COMPONENT_NAME :: string
  VERSION :: string
  comp_count :: int
  discover :: bool
  discovery :: "bool \<Rightarrow> message list"

definition base_discovery :: "bool \<Rightarrow> message list" where
  "base_discovery register = []"

text \<open>
  A coroutine in flight: the drain \<^verbatim>\<open>__initNetworkProcess\<close> (created by
  \<^verbatim>\<open>asyncio.create_task\<close> and not yet run, or suspended in
  \<^verbatim>\<open>await c._init_network()\<close> with its local \<^verbatim>\<open>c\<close>), a call of
  \<^verbatim>\<open>removeComponent\<close> suspended in \<^verbatim>\<open>await component._remove()\<close>, or a
  coroutine that has returned.
\<close>

datatype coro = DrainCreated | DrainAwait addr | RemoveAwait addr | Returned py_value

record state =
  heap :: "addr \<Rightarrow> comp"
  alloc :: nat                           \<comment> \<open>the next address to hand out\<close>
  components :: "addr option"            \<comment> \<open>\<^verbatim>\<open>_components\<close>\<close>
  init_queue_start :: "addr option"      \<comment> \<open>\<^verbatim>\<open>_init_queue_start\<close>\<close>
  coros :: "coro list"
  trace :: "event list"

definition initial_state :: state where
  "initial_state =
     \<lparr>heap = (\<lambda>a. \<lparr>next_component = None, COMPONENT_NAME = [], VERSION = [],
                    comp_count = 0, discover = False, discovery = base_discovery\<rparr>),
      alloc = 0, components = None, init_queue_start = None, coros = [], trace = []\<rparr>"

subsubsection \<open>Construction\<close>

text \<open>
  The walk of \<^verbatim>\<open>__init__\<close> to the tail. On a cyclic chain the Python loop does
  not end; the function is then \<open>None\<close>.
\<close>

partial_function (option) append_walk ::
  "(addr \<Rightarrow> comp) \<Rightarrow> addr option \<Rightarrow> addr \<Rightarrow> (addr \<Rightarrow> comp) option" where
  "append_walk h c self =
     (case c of
        None \<Rightarrow> Some h
      | Some a \<Rightarrow>
          if next_component (h a) = None
          then Some (h(a := (h a)\<lparr>next_component := Some self\<rparr>))
          else append_walk h (next_component (h a)) self)"

declare append_walk.simps [code]

text \<open>
  The body of \<^verbatim>\<open>ComponentBase.__init__\<close>, statement by statement. The last
  assignment, of the logger to \<^verbatim>\<open>self._log\<close>, is left out: the logger is a
  collaborator, and nothing embedded here reads the attribute.
\<close>

definition init :: "addr \<Rightarrow> string \<Rightarrow> string \<Rightarrow> int \<Rightarrow> bool \<Rightarrow> state \<Rightarrow> state option" where
  "init self component_name version unit_index discover' s =
     (let s1 = s\<lparr>heap := (heap s)(self := (heap s self)\<lparr>next_component := None\<rparr>)\<rparr>;
          linked = (if components s1 = None then Some (s1\<lparr>components := Some self\<rparr>)
                    else map_option (\<lambda>h. s1\<lparr>heap := h\<rparr>)
                           (append_walk (heap s1) (components s1) self))
      in case linked of
           None \<Rightarrow> None
         | Some s2 \<Rightarrow>
             let s3 = (if init_queue_start s2 = None
                       then s2\<lparr>init_queue_start := Some self,
                               coros := coros s2 @ [DrainCreated]\<rparr>
                       else s2)
             in Some (s3\<lparr>heap := (heap s3)(self := (heap s3 self)
                        \<lparr>COMPONENT_NAME := component_name, VERSION := version,
                         comp_count := unit_index, discover := discover'\<rparr>)\<rparr>))"

text \<open>
  Creating an object of a class (given by its \<^verbatim>\<open>_discovery\<close> method) takes the
  next address; the constructor then runs on it.
\<close>

definition new_object :: "(bool \<Rightarrow> message list) \<Rightarrow> state \<Rightarrow> state" where
  "new_object cls s =
     s\<lparr>heap := (heap s)(alloc s := (heap s (alloc s))\<lparr>discovery := cls\<rparr>),
       alloc := Suc (alloc s)\<rparr>"

definition construct ::
  "(bool \<Rightarrow> message list) \<Rightarrow> string \<Rightarrow> string \<Rightarrow> int \<Rightarrow> bool \<Rightarrow> state \<Rightarrow> state option" where
  "construct cls component_name version unit_index discover' s =
     init (alloc s) component_name version unit_index discover' (new_object cls s)"

subsubsection \<open>Network initialisation\<close>

text \<open>The body of \<^verbatim>\<open>_init_network\<close> of the base class.\<close>

definition init_network :: "env \<Rightarrow> addr \<Rightarrow> state \<Rightarrow> state" where
  "init_network e self s =
     (let c = heap s self
      in s\<lparr>trace := trace s @
            [AsyncLog ''info'' [''Added module'', COMPONENT_NAME c, ''version'', VERSION c,
                                ''as component'', getComponentName e self]] @
            (if MQTT_DISCOVERY_ENABLED e \<and> discover c
             then Discovery self True # map publish (discovery c True) else [])\<rparr>)"

text \<open>
  \<^verbatim>\<open>__initNetworkProcess\<close>, coroutine number \<open>i\<close>: the loop test and what
  follows it up to the next suspension. The coroutine starts by reading
  \<^verbatim>\<open>_init_queue_start\<close>; when it is resumed it reads \<^verbatim>\<open>c._next_component\<close>
  from the store as it is then. \<^verbatim>\<open>gc.collect()\<close> changes nothing of the state. The
  calls a hook makes are recorded where the hook is called: the suspensions inside it read
  and write neither the registry nor the pointer nor a coroutine.
\<close>

definition drain_loop :: "env \<Rightarrow> nat \<Rightarrow> addr option \<Rightarrow> state \<Rightarrow> state" where
  "drain_loop e i c s =
     (case c of
        None \<Rightarrow> s\<lparr>init_queue_start := None, coros := (coros s)[i := Returned PyNone]\<rparr>
      | Some a \<Rightarrow>
          (init_network e a (s\<lparr>trace := trace s @ [InitNetwork a]\<rparr>))
            \<lparr>coros := (coros s)[i := DrainAwait a]\<rparr>)"

definition initNetworkProcess_start :: "env \<Rightarrow> nat \<Rightarrow> state \<Rightarrow> state" where
  "initNetworkProcess_start e i s = drain_loop e i (init_queue_start s) s"

definition initNetworkProcess_resume :: "env \<Rightarrow> nat \<Rightarrow> addr \<Rightarrow> state \<Rightarrow> state" where
  "initNetworkProcess_resume e i c s = drain_loop e i (next_component (heap s c)) s"

subsubsection \<open>Removal\<close>

text \<open>The body of \<^verbatim>\<open>_remove\<close>.\<close>

definition comp_remove :: "env \<Rightarrow> addr \<Rightarrow> state \<Rightarrow> state" where
  "comp_remove e self s =
     (let c = heap s self
      in s\<lparr>trace := trace s @
            [Unsubscribe self,
             AsyncLog ''info'' [''Removed component'', getComponentName e self, ''module'',
                                COMPONENT_NAME c, ''version'', VERSION c]] @
            (if MQTT_DISCOVERY_ENABLED e \<and> discover c
             then Discovery self False # map publish (discovery c False) else [])\<rparr>)"

text \<open>
  The argument of \<^verbatim>\<open>removeComponent\<close>: a string, a \<^verbatim>\<open>ComponentBase\<close>
  instance, or any other value. \<open>resolve\<close> is the first two statements: the name is looked
  up, and the result is a component or fails the \<^verbatim>\<open>isinstance\<close> test.
\<close>

datatype rm_arg = Name string | Comp addr | NonComp

fun resolve :: "env \<Rightarrow> rm_arg \<Rightarrow> addr option" where
  "resolve e (Name n) = getComponent e n"
| "resolve e (Comp a) = Some a"
| "resolve e NonComp = None"

definition not_instance_msg :: string where
  "not_instance_msg =
     ''Can'' @ [CHR 0x27] @ ''t remove a component that is not an instance of '' @
     ''pysmartnode.utils.component.Component''"

text \<open>The unlinking loop of \<^verbatim>\<open>removeComponent\<close>, with its locals \<^verbatim>\<open>c\<close> and \<^verbatim>\<open>p\<close>.\<close>

partial_function (option) unlink_walk ::
  "addr \<Rightarrow> addr option \<Rightarrow> addr option \<Rightarrow> state \<Rightarrow> state option" where
  "unlink_walk component c p s =
     (case c of
        None \<Rightarrow> Some s
      | Some a \<Rightarrow>
          if a = component then
            (case p of
               None \<Rightarrow> Some (s\<lparr>components := next_component (heap s a)\<rparr>)
             | Some q \<Rightarrow>
                 Some (s\<lparr>heap := (heap s)(q := (heap s q)
                          \<lparr>next_component := next_component (heap s a)\<rparr>)\<rparr>))
          else unlink_walk component (next_component (heap s a)) (Some a) s)"

declare unlink_walk.simps [code]

text \<open>
  \<^verbatim>\<open>removeComponent\<close> run without interruption: the value it returns and the state
  it leaves. The function has no \<^verbatim>\<open>return\<close> after the loop, so that path returns
  \<^verbatim>\<open>None\<close>.
\<close>

definition removeComponent :: "env \<Rightarrow> rm_arg \<Rightarrow> state \<Rightarrow> (py_value \<times> state) option" where
  "removeComponent e component s =
     (case resolve e component of
        None \<Rightarrow> Some (PyBool False, s\<lparr>trace := trace s @ [LogError not_instance_msg]\<rparr>)
      | Some a \<Rightarrow>
          let s1 = comp_remove e a s
          in map_option (\<lambda>s2. (PyNone, s2)) (unlink_walk a (components s1) None s1))"

text \<open>
  The same coroutine in two steps, for the scheduler: the call runs up to the suspension in
  \<^verbatim>\<open>await component._remove()\<close> (or returns \<^verbatim>\<open>False\<close> at once), the
  resumption unlinks and returns.
\<close>

definition removeComponent_call :: "env \<Rightarrow> rm_arg \<Rightarrow> state \<Rightarrow> state" where
  "removeComponent_call e component s =
     (case resolve e component of
        None \<Rightarrow> s\<lparr>trace := trace s @ [LogError not_instance_msg],
                  coros := coros s @ [Returned (PyBool False)]\<rparr>
      | Some a \<Rightarrow> (comp_remove e a s)\<lparr>coros := coros s @ [RemoveAwait a]\<rparr>)"

definition removeComponent_resume :: "nat \<Rightarrow> addr \<Rightarrow> state \<Rightarrow> state option" where
  "removeComponent_resume i a s =
     map_option (\<lambda>s2. s2\<lparr>coros := (coros s2)[i := Returned PyNone]\<rparr>)
       (unlink_walk a (components s) None s)"

subsubsection \<open>The cooperative scheduler\<close>

text \<open>
  One thread of control: between two suspension points nothing else runs. An action is a
  constructor call, a call of \<^verbatim>\<open>removeComponent\<close>, or the event loop resuming
  coroutine \<open>i\<close> until it suspends again or returns. A schedule is any list of actions;
  an \<^verbatim>\<open>await\<close> that does not suspend is the same coroutine resumed twice in a row.
\<close>

datatype action =
    Construct "bool \<Rightarrow> message list" string string int bool
  | CallRemove rm_arg
  | Resume nat

fun step :: "env \<Rightarrow> action \<Rightarrow> state \<Rightarrow> state option" where
  "step e (Construct cls n v i d) s = construct cls n v i d s"
| "step e (CallRemove x) s = Some (removeComponent_call e x s)"
| "step e (Resume i) s =
     (if i < length (coros s) then
        (case coros s ! i of
           DrainCreated \<Rightarrow> Some (initNetworkProcess_start e i s)
         | DrainAwait c \<Rightarrow> Some (initNetworkProcess_resume e i c s)
         | RemoveAwait a \<Rightarrow> removeComponent_resume i a s
         | Returned v \<Rightarrow> Some s)
      else Some s)"

fun run :: "env \<Rightarrow> action list \<Rightarrow> state \<Rightarrow> state option" where
  "run e [] s = Some s"
| "run e (a # as) s = (case step e a s of None \<Rightarrow> None | Some s' \<Rightarrow> run e as s')"

subsection \<open>Abstraction of the registry\<close>

text \<open>
  \<open>is_chain h p xs\<close>: following \<^verbatim>\<open>_next_component\<close> from \<open>p\<close> in the store
  \<open>h\<close> visits exactly the addresses \<open>xs\<close>, in order, and then reaches
  \<^verbatim>\<open>None\<close>.
\<close>

fun is_chain :: "(addr \<Rightarrow> comp) \<Rightarrow> addr option \<Rightarrow> addr list \<Rightarrow> bool" where
  "is_chain h p [] = (p = None)"
| "is_chain h p (a # as) = (p = Some a \<and> is_chain h (next_component (h a)) as)"

fun is_drain :: "coro \<Rightarrow> bool" where
  "is_drain DrainCreated = True"
| "is_drain (DrainAwait c) = True"
| "is_drain (RemoveAwait a) = False"
| "is_drain (Returned v) = False"

definition live_drains :: "state \<Rightarrow> nat" where
  "live_drains s = length (filter is_drain (coros s))"

text \<open>Readings of the trace: the hooks the drain called, the errors logged, the publishes.\<close>

fun init_calls :: "event list \<Rightarrow> addr list" where
  "init_calls [] = []"
| "init_calls (InitNetwork a # es) = a # init_calls es"
| "init_calls (e # es) = init_calls es"

fun log_errors :: "event list \<Rightarrow> string list" where
  "log_errors [] = []"
| "log_errors (LogError m # es) = m # log_errors es"
| "log_errors (e # es) = log_errors es"

fun published :: "event list \<Rightarrow> message list" where
  "published [] = []"
| "published (Publish t m q r # es) = (t, m, q, r) # published es"
| "published (e # es) = published es"

text \<open>The coroutines of the drain that have not returned, in creation order.\<close>

definition drains :: "state \<Rightarrow> coro list" where
  "drains s = filter is_drain (coros s)"

text \<open>
  The registry is the chain \<open>xs\<close> and holds only objects that have been created.
\<close>

definition registry_ok :: "state \<Rightarrow> addr list \<Rightarrow> bool" where
  "registry_ok s xs = (is_chain (heap s) (components s) xs \<and> (\<forall>a \<in> set xs. a < alloc s))"

fun is_construct :: "action \<Rightarrow> bool" where
  "is_construct (Construct cls n v i d) = True"
| "is_construct (CallRemove x) = False"
| "is_construct (Resume i) = False"

fun is_call_remove :: "action \<Rightarrow> bool" where
  "is_call_remove (Construct cls n v i d) = False"
| "is_call_remove (CallRemove x) = True"
| "is_call_remove (Resume i) = False"

text \<open>
  The invariant of schedules without removals: the registry is the chain of all objects in
  the order of their construction, and the hooks called so far are those of the objects
  before the one the drain will take next.
\<close>

definition fifo_inv :: "state \<Rightarrow> bool" where
  "fifo_inv s =
     (is_chain (heap s) (components s) [0..<alloc s] \<and>
      (\<forall>k \<in> set (coros s). \<forall>a. k \<noteq> RemoveAwait a) \<and>
      (case init_queue_start s of
         None \<Rightarrow> drains s = [] \<and> init_calls (trace s) = [0..<alloc s]
       | Some p \<Rightarrow>
           (drains s = [DrainCreated] \<and> p < alloc s \<and> init_calls (trace s) = [0..<p]) \<or>
           (\<exists>c. drains s = [DrainAwait c] \<and> c < alloc s \<and>
                init_calls (trace s) = [0..<Suc c])))"

subsection \<open>The friendly names of the PMS5003 constructor\<close>

text \<open>
  The values the \<^verbatim>\<open>friendly_name\<close> argument of \<^verbatim>\<open>PMS5003.__init__\<close> can
  take, as far as the constructor looks at them: \<^verbatim>\<open>None\<close>, a string, an integer,
  a list, or a value of any other type, given by what \<^verbatim>\<open>str(type(x))\<close> is for it.
\<close>

datatype py_obj = ONone | OStr string | OInt int | OList "py_obj list" | OOther string

definition TYPES :: "string list" where
  "TYPES = [''pm10_standard'', ''pm25_standard'', ''pm100_standard'', ''pm10_env'',
            ''pm25_env'', ''pm100_env'', ''particles_03um'', ''particles_05um'',
            ''particles_10um'', ''particles_25um'', ''particles_50um'', ''particles_100um'']"

text \<open>The micro sign of the first six units is the character with code \<open>0xB5\<close>.\<close>

definition UNITS :: "string list" where
  "UNITS = [CHR 0xB5 # ''g/m3'', CHR 0xB5 # ''g/m3'', CHR 0xB5 # ''g/m3'',
            CHR 0xB5 # ''g/m3'', CHR 0xB5 # ''g/m3'', CHR 0xB5 # ''g/m3'',
            ''1/0.1L'', ''1/0.1L'', ''1/0.1L'', ''1/0.1L'', ''1/0.1L'', ''1/0.1L'']"

text \<open>
  \<^verbatim>\<open>str(n)\<close> for a length, \<^verbatim>\<open>str(type(x))\<close>, \<^verbatim>\<open>xs.index(x)\<close> and
  \<^verbatim>\<open>xs[i]\<close> for an index that is not negative; \<open>None\<close> is Python's
  \<^verbatim>\<open>ValueError\<close> and \<^verbatim>\<open>IndexError\<close>.
\<close>

fun str_nat :: "nat \<Rightarrow> string" where
  "str_nat n =
     (if n < 10 then [''0123456789'' ! n]
      else str_nat (n div 10) @ [''0123456789'' ! (n mod 10)])"

fun type_str :: "py_obj \<Rightarrow> string" where
  "type_str ONone = ''<class '' @ [CHR 0x27] @ ''NoneType'' @ [CHR 0x27] @ ''>''"
| "type_str (OStr s) = ''<class '' @ [CHR 0x27] @ ''str'' @ [CHR 0x27] @ ''>''"
| "type_str (OInt i) = ''<class '' @ [CHR 0x27] @ ''int'' @ [CHR 0x27] @ ''>''"
| "type_str (OList xs) = ''<class '' @ [CHR 0x27] @ ''list'' @ [CHR 0x27] @ ''>''"
| "type_str (OOther t) = t"

fun index_of :: "'a list \<Rightarrow> 'a \<Rightarrow> nat option" where
  "index_of [] x = None"
| "index_of (y # ys) x = (if y = x then Some 0 else map_option Suc (index_of ys x))"

definition py_get :: "'a list \<Rightarrow> nat \<Rightarrow> 'a option" where
  "py_get xs i = (if i < length xs then Some (xs ! i) else None)"

text \<open>
  Lines 77 to 86 of the constructor: the warnings logged through \<^verbatim>\<open>_log.warn\<close> and
  the value of \<^verbatim>\<open>friendly_name\<close> afterwards. The outer test
  \<^verbatim>\<open>type(friendly_name) is not None\<close> compares a type object with
  \<^verbatim>\<open>None\<close> and is true for every argument, \<^verbatim>\<open>None\<close> included.
\<close>

fun check_friendly_name :: "py_obj \<Rightarrow> string list \<times> py_obj" where
  "check_friendly_name (OList xs) =
     (if length xs \<noteq> 12
      then ([''Length of friendly name is wrong, expected 12 got '' @ str_nat (length xs)],
            ONone)
      else ([], OList xs))"
| "check_friendly_name x =
     ([''Friendly name got unsupported type '' @ type_str x @ '', expect list''], ONone)"

text \<open>An argument that is a list whose length is not 12, or is not a list.\<close>

fun bad_friendly_name :: "py_obj \<Rightarrow> bool" where
  "bad_friendly_name (OList xs) = (length xs \<noteq> 12)"
| "bad_friendly_name x = True"

text \<open>
  \<^verbatim>\<open>friendly_name[ind] if friendly_name is not None else tp\<close>; subscripting a value
  that is neither \<^verbatim>\<open>None\<close> nor a list raises.
\<close>

fun friendly_of :: "py_obj \<Rightarrow> nat \<Rightarrow> string \<Rightarrow> py_obj option" where
  "friendly_of ONone ind tp = Some (OStr tp)"
| "friendly_of (OList xs) ind tp = py_get xs ind"
| "friendly_of x ind tp = None"

text \<open>
  The loop over \<^verbatim>\<open>TYPES\<close>: for every sensor type, the type, the unit and the
  friendly name passed to \<^verbatim>\<open>_addSensorType\<close> (a method of
  \<^verbatim>\<open>ComponentSensor\<close>, which only receives them); \<open>None\<close> where an
  exception ends the constructor.
\<close>

definition sensor_type_args :: "py_obj \<Rightarrow> string \<Rightarrow> (string \<times> string \<times> py_obj) option" where
  "sensor_type_args friendly_name tp =
     (case index_of TYPES tp of
        None \<Rightarrow> None
      | Some ind \<Rightarrow>
          (case py_get UNITS ind of
             None \<Rightarrow> None
           | Some u \<Rightarrow> map_option (\<lambda>f. (tp, u, f)) (friendly_of friendly_name ind tp)))"

definition pms5003_sensor_types ::
  "py_obj \<Rightarrow> (string list \<times> (string \<times> string \<times> py_obj) list) option" where
  "pms5003_sensor_types friendly_name =
     (let (warnings, friendly_name') = check_friendly_name friendly_name
      in map_option (Pair warnings) (those (map (sensor_type_args friendly_name') TYPES)))"

subsection \<open>An example environment\<close>

definition example_env :: env where
  "example_env =
     \<lparr>MQTT_DISCOVERY_ENABLED = True, MQTT_DISCOVERY_PREFIX = ''homeassistant'',
      MQTT_HOME = ''home'', MQTT_AVAILABILITY_SUBTOPIC = ''available'',
      getDeviceID = ''dev1'', getDeviceDiscovery = ''{}'',
      isDeviceTopic = (\<lambda>t. take 2 t = ''./''),
      getRealTopic = (\<lambda>t. ''home/dev1/'' @ drop 2 t),
      DISCOVERY_BASE = ''{{{!s},{!s},{!s}_{!s},{!s}{!s}{!s}}}'',
      DISCOVERY_AVAILABILITY = ''{!s}/{!s}/{!s},'',
      getComponentName = (\<lambda>a. ''component''),
      getComponent = (\<lambda>n. if n = ''first'' then Some 0 else None)\<rparr>"

text \<open>
  Two components, constructed in this order before the drain has run, and the schedule that
  leaves this state.
\<close>

definition two_constructions :: "action list" where
  "two_constructions =
     [Construct base_discovery ''A'' ''1'' 0 True, Construct base_discovery ''B'' ''1'' 1 True]"

definition two_components :: state where
  "two_components =
     \<lparr>heap = (\<lambda>a. if a = 0
                   then \<lparr>next_component = Some 1, COMPONENT_NAME = ''A'', VERSION = ''1'',
                         comp_count = 0, discover = True, discovery = base_discovery\<rparr>
                   else if a = 1
                   then \<lparr>next_component = None, COMPONENT_NAME = ''B'', VERSION = ''1'',
                         comp_count = 1, discover = True, discovery = base_discovery\<rparr>
                   else \<lparr>next_component = None, COMPONENT_NAME = [], VERSION = [],
                         comp_count = 0, discover = False, discovery = base_discovery\<rparr>),
      alloc = 2, components = Some 0, init_queue_start = Some 0, coros = [DrainCreated],
      trace = []\<rparr>"

fun removal_free :: "action list \<Rightarrow> bool" where
  "removal_free [] = True"
| "removal_free (a # as) = (\<not> is_call_remove a \<and> removal_free as)"

text \<open>A third component is constructed while the drain is suspended in the hook of the first.\<close>

definition drain_interleaved :: "action list" where
  "drain_interleaved =
     two_constructions @
     [Resume 0, Construct base_discovery ''C'' ''1'' 2 True, Resume 0, Resume 0, Resume 0]"

text \<open>
  The first of the two components has been removed: the state after
  \<^verbatim>\<open>removeComponent\<close> has been called for it and has returned.
\<close>

definition first_removed :: state where
  "first_removed =
     two_components
       \<lparr>components := Some 1,
        coros := [DrainCreated, Returned PyNone],
        trace := [Unsubscribe 0,
                  AsyncLog ''info'' [''Removed component'', ''component'', ''module'', ''A'',
                                     ''version'', ''1''],
                  Discovery 0 False]\<rparr>"



text \<open>
  A removal while the drain is suspended: the first component is constructed and the drain
  runs into its hook; the component is removed; a second component is constructed; the
  drain is resumed; a third component is constructed and the drain it creates runs to its
  end. The state this schedule leaves is written out.
\<close>

definition removal_during_drain :: "action list" where
  "removal_during_drain =
     [Construct base_discovery ''A'' ''1'' 0 True, Resume 0,
      CallRemove (Comp 0), Resume 1,
      Construct base_discovery ''B'' ''1'' 1 True, Resume 0,
      Construct base_discovery ''C'' ''1'' 2 True, Resume 2, Resume 2]"

definition second_skipped :: state where
  "second_skipped =
     \<lparr>heap = (\<lambda>a. if a = 0
                   then \<lparr>next_component = None, COMPONENT_NAME = ''A'', VERSION = ''1'',
                         comp_count = 0, discover = True, discovery = base_discovery\<rparr>
                   else if a = 1
                   then \<lparr>next_component = Some 2, COMPONENT_NAME = ''B'', VERSION = ''1'',
                         comp_count = 1, discover = True, discovery = base_discovery\<rparr>
                   else if a = 2
                   then \<lparr>next_component = None, COMPONENT_NAME = ''C'', VERSION = ''1'',
                         comp_count = 2, discover = True, discovery = base_discovery\<rparr>
                   else \<lparr>next_component = None, COMPONENT_NAME = [], VERSION = [],
                         comp_count = 0, discover = False, discovery = base_discovery\<rparr>),
      alloc = 3, components = Some 1, init_queue_start = None,
      coros = [Returned PyNone, Returned PyNone, Returned PyNone],
      trace = [InitNetwork 0,
               AsyncLog ''info'' [''Added module'', ''A'', ''version'', ''1'', ''as component'',
                                  ''component''],
               Discovery 0 True,
               Unsubscribe 0,
               AsyncLog ''info'' [''Removed component'', ''component'', ''module'', ''A'',
                                  ''version'', ''1''],
               Discovery 0 False,
               InitNetwork 2,
               AsyncLog ''info'' [''Added module'', ''C'', ''version'', ''1'', ''as component'',
                                  ''component''],
               Discovery 2 True]\<rparr>"

section \<open>Properties\<close>

subsection \<open>Chains in the store\<close>

lemma is_chain_unique: "is_chain h p xs \<Longrightarrow> is_chain h p ys \<Longrightarrow> xs = ys"
proof (induction xs arbitrary: p ys)
  case Nil
  then show ?case by (cases ys) auto
next
  case (Cons a as)
  then show ?case by (cases ys) auto
qed

lemma is_chain_suffix: "is_chain h p (us @ vs) \<Longrightarrow> \<exists>q. is_chain h q vs"
  by (induction us arbitrary: p) auto

lemma is_chain_distinct: "is_chain h p xs \<Longrightarrow> distinct xs"
proof (induction xs arbitrary: p)
  case Nil
  show ?case by simp
next
  case (Cons a as)
  have tl: "is_chain h (next_component (h a)) as" using Cons.prems by simp
  have "a \<notin> set as"
  proof
    assume "a \<in> set as"
    then obtain us vs where split: "as = us @ a # vs" by (auto dest: split_list)
    with tl obtain q where "is_chain h q (a # vs)" using is_chain_suffix by blast
    then have "is_chain h (Some a) (a # vs)" by simp
    moreover have "is_chain h (Some a) (a # as)" using Cons.prems by simp
    ultimately have "a # vs = a # as" by (rule is_chain_unique)
    with split show False by simp
  qed
  with Cons.IH [OF tl] show ?case by simp
qed

lemma is_chain_cong_next:
  "(\<And>a. a \<in> set xs \<Longrightarrow> next_component (h' a) = next_component (h a)) \<Longrightarrow>
   is_chain h' p xs = is_chain h p xs"
  by (induction xs arbitrary: p) auto

lemma append_walk_last:
  "is_chain h (Some q) (q # xs) \<Longrightarrow>
   append_walk h (Some q) self =
     Some (h(last (q # xs) := (h (last (q # xs)))\<lparr>next_component := Some self\<rparr>))"
proof (induction xs arbitrary: q)
  case Nil
  then show ?case by (subst append_walk.simps) simp
next
  case (Cons a as)
  then have nx: "next_component (h q) = Some a" and tl: "is_chain h (Some a) (a # as)"
    by simp_all
  have "append_walk h (Some q) self = append_walk h (Some a) self"
    by (subst append_walk.simps) (simp add: nx)
  also note Cons.IH [OF tl]
  also have "last (a # as) = last (q # a # as)" by simp
  finally show ?case .
qed

lemma is_chain_snoc:
  assumes "is_chain h p xs" and "xs \<noteq> []" and "self \<notin> set xs"
    and "next_component (h self) = None"
  shows "is_chain (h(last xs := (h (last xs))\<lparr>next_component := Some self\<rparr>)) p (xs @ [self])"
  using assms
proof (induction xs arbitrary: p)
  case Nil
  then show ?case by simp
next
  case (Cons a as)
  have d: "distinct (a # as)" using Cons.prems(1) by (rule is_chain_distinct)
  show ?case
  proof (cases "as = []")
    case True
    with Cons.prems show ?thesis by auto
  next
    case False
    with d have "last as \<noteq> a" by (metis distinct.simps(2) last_in_set)
    with Cons False show ?thesis by auto
  qed
qed


lemma init_appends:
  assumes ch: "is_chain (heap s) (components s) xs" and fresh: "self \<notin> set xs"
  shows "\<exists>s'. init self n v i d s = Some s' \<and>
           is_chain (heap s') (components s') (xs @ [self]) \<and>
           components s' = (if xs = [] then Some self else components s) \<and>
           (\<forall>b. b \<noteq> self \<and> (xs = [] \<or> b \<noteq> last xs) \<longrightarrow> heap s' b = heap s b) \<and>
           (xs \<noteq> [] \<longrightarrow> heap s' (last xs) = (heap s (last xs))\<lparr>next_component := Some self\<rparr>) \<and>
           alloc s' = alloc s \<and> trace s' = trace s \<and>
           init_queue_start s' = (if init_queue_start s = None then Some self else init_queue_start s) \<and>
           coros s' = (if init_queue_start s = None then coros s @ [DrainCreated] else coros s)"
proof (cases xs)
  case Nil
  with ch have "components s = None" by simp
  with Nil show ?thesis by (simp add: init_def Let_def)
next
  case (Cons q qs)
  define h1 where "h1 = (heap s)(self := (heap s self)\<lparr>next_component := None\<rparr>)"
  define l where "l = last xs"
  define h2 where "h2 = h1(l := (h1 l)\<lparr>next_component := Some self\<rparr>)"
  define s3 where "s3 = (if init_queue_start s = None
       then s\<lparr>heap := h2, init_queue_start := Some self, coros := coros s @ [DrainCreated]\<rparr>
       else s\<lparr>heap := h2\<rparr>)"
  define s4 where "s4 = s3\<lparr>heap := (heap s3)(self := (heap s3 self)
       \<lparr>COMPONENT_NAME := n, VERSION := v, comp_count := i, discover := d\<rparr>)\<rparr>"
  have hd: "components s = Some q" using ch Cons by simp
  have ne: "xs \<noteq> []" using Cons by simp
  have lne: "l \<noteq> self" using fresh ne unfolding l_def by (metis last_in_set)
  have ch1: "is_chain h1 (Some q) (q # qs)"
  proof -
    have "is_chain h1 (components s) xs = is_chain (heap s) (components s) xs"
      using fresh unfolding h1_def by (intro is_chain_cong_next) auto
    with ch hd Cons show ?thesis by simp
  qed
  have walk: "append_walk h1 (Some q) self = Some h2"
    using append_walk_last [OF ch1, of self] Cons by (simp add: h2_def l_def)
  have res: "init self n v i d s = Some s4"
    using walk hd by (simp add: init_def Let_def h1_def [symmetric] s3_def s4_def)
  have ch2: "is_chain h2 (Some q) (xs @ [self])"
    unfolding h2_def l_def
    using is_chain_snoc [of h1 "Some q" xs self] ch1 fresh Cons by (simp add: h1_def)
  have heap4: "heap s4 = h2(self := (h2 self)
       \<lparr>COMPONENT_NAME := n, VERSION := v, comp_count := i, discover := d\<rparr>)"
    by (simp add: s4_def s3_def)
  have "is_chain (heap s4) (Some q) (xs @ [self]) = is_chain h2 (Some q) (xs @ [self])"
    by (rule is_chain_cong_next) (simp add: heap4)
  with ch2 have ch4: "is_chain (heap s4) (Some q) (xs @ [self])" by simp
  have c4: "components s4 = Some q" using hd by (simp add: s4_def s3_def)
  have others: "\<forall>b. b \<noteq> self \<and> b \<noteq> l \<longrightarrow> heap s4 b = heap s b"
    by (simp add: heap4 h2_def h1_def)
  have tail: "heap s4 l = (heap s l)\<lparr>next_component := Some self\<rparr>"
    using lne by (simp add: heap4 h2_def h1_def)
  have rest: "alloc s4 = alloc s" "trace s4 = trace s"
    "init_queue_start s4 = (if init_queue_start s = None then Some self else init_queue_start s)"
    "coros s4 = (if init_queue_start s = None then coros s @ [DrainCreated] else coros s)"
    by (simp_all add: s4_def s3_def)
  show ?thesis
    using res ch4 c4 others tail rest ne hd by (simp add: l_def)
qed

lemma unlink_walk_absent:
  "is_chain (heap s) c xs \<Longrightarrow> x \<notin> set xs \<Longrightarrow> unlink_walk x c p s = Some s"
proof (induction xs arbitrary: c p)
  case Nil
  then show ?case by (subst unlink_walk.simps) simp
next
  case (Cons a as)
  then have c: "c = Some a" and ax: "a \<noteq> x"
    and tl: "is_chain (heap s) (next_component (heap s a)) as" and nin: "x \<notin> set as"
    by auto
  have "unlink_walk x c p s = unlink_walk x (next_component (heap s a)) (Some a) s"
    by (subst unlink_walk.simps) (simp add: c ax)
  also have "\<dots> = Some s" using tl nin by (rule Cons.IH)
  finally show ?case .
qed

lemma unlink_walk_inner:
  assumes "is_chain (heap s) (Some q) (q # xs)" and "x \<in> set xs"
  shows "\<exists>h'. unlink_walk x (next_component (heap s q)) (Some q) s = Some (s\<lparr>heap := h'\<rparr>) \<and>
           is_chain h' (Some q) (q # remove1 x xs) \<and>
           next_component (h' x) = next_component (heap s x) \<and>
           (\<forall>b. b \<notin> set (q # xs) \<longrightarrow> h' b = heap s b)"
  using assms
proof (induction xs arbitrary: q)
  case Nil
  then show ?case by simp
next
  case (Cons a as)
  have d: "distinct (q # a # as)" using Cons.prems(1) by (rule is_chain_distinct)
  have nx: "next_component (heap s q) = Some a"
    and tl: "is_chain (heap s) (Some a) (a # as)" using Cons.prems(1) by simp_all
  show ?case
  proof (cases "a = x")
    case True
    define h' where "h' = (heap s)(q := (heap s q)\<lparr>next_component := next_component (heap s x)\<rparr>)"
    have w: "unlink_walk x (next_component (heap s q)) (Some q) s = Some (s\<lparr>heap := h'\<rparr>)"
      by (subst unlink_walk.simps) (simp add: nx True h'_def)
    have "is_chain h' (next_component (heap s x)) as = is_chain (heap s) (next_component (heap s x)) as"
      using d unfolding h'_def by (intro is_chain_cong_next) auto
    then have c: "is_chain h' (Some q) (q # remove1 x (a # as))"
      using tl True by (simp add: h'_def)
    have "next_component (h' x) = next_component (heap s x)"
      using d True by (simp add: h'_def)
    moreover have "\<forall>b. b \<notin> set (q # a # as) \<longrightarrow> h' b = heap s b"
      by (simp add: h'_def)
    ultimately show ?thesis using w c by blast
  next
    case False
    with Cons.prems(2) have xin: "x \<in> set as" by simp
    from Cons.IH [OF tl xin] obtain h' where
      w: "unlink_walk x (next_component (heap s a)) (Some a) s = Some (s\<lparr>heap := h'\<rparr>)"
      and c: "is_chain h' (Some a) (a # remove1 x as)"
      and n: "next_component (h' x) = next_component (heap s x)"
      and f: "\<forall>b. b \<notin> set (a # as) \<longrightarrow> h' b = heap s b" by blast
    have "unlink_walk x (next_component (heap s q)) (Some q) s =
          unlink_walk x (next_component (heap s a)) (Some a) s"
      by (subst unlink_walk.simps) (simp add: nx False)
    with w have w': "unlink_walk x (next_component (heap s q)) (Some q) s = Some (s\<lparr>heap := h'\<rparr>)"
      by simp
    have "h' q = heap s q" using f d by simp
    with nx c False have "is_chain h' (Some q) (q # remove1 x (a # as))" by simp
    moreover have "\<forall>b. b \<notin> set (q # a # as) \<longrightarrow> h' b = heap s b" using f by simp
    ultimately show ?thesis using w' n by blast
  qed
qed

lemma unlink_walk_registry:
  assumes "is_chain (heap s) (components s) xs"
  shows "\<exists>s'. unlink_walk x (components s) None s = Some s' \<and>
           is_chain (heap s') (components s') (remove1 x xs) \<and>
           next_component (heap s' x) = next_component (heap s x) \<and>
           init_queue_start s' = init_queue_start s \<and> coros s' = coros s \<and>
           trace s' = trace s \<and> alloc s' = alloc s \<and>
           (\<forall>b. b \<notin> set xs \<longrightarrow> heap s' b = heap s b) \<and>
           (x \<notin> set xs \<longrightarrow> s' = s)"
proof (cases "x \<in> set xs")
  case False
  with assms show ?thesis by (simp add: unlink_walk_absent remove1_idem)
next
  case True
  then obtain q qs where xs: "xs = q # qs" by (cases xs) auto
  have hd: "components s = Some q" using assms xs by simp
  show ?thesis
  proof (cases "q = x")
    case True
    have "unlink_walk x (components s) None s = Some (s\<lparr>components := next_component (heap s x)\<rparr>)"
      by (subst unlink_walk.simps) (simp add: hd True)
    with assms xs True \<open>x \<in> set xs\<close> show ?thesis by simp
  next
    case False
    with True xs have xin: "x \<in> set qs" by simp
    have c: "is_chain (heap s) (Some q) (q # qs)" using assms xs hd by simp
    from unlink_walk_inner [OF c xin] obtain h' where
      w: "unlink_walk x (next_component (heap s q)) (Some q) s = Some (s\<lparr>heap := h'\<rparr>)"
      and c': "is_chain h' (Some q) (q # remove1 x qs)"
      and n: "next_component (h' x) = next_component (heap s x)"
      and f: "\<forall>b. b \<notin> set (q # qs) \<longrightarrow> h' b = heap s b" by blast
    have "unlink_walk x (components s) None s =
          unlink_walk x (next_component (heap s q)) (Some q) s"
      by (subst unlink_walk.simps) (simp add: hd False)
    with w have "unlink_walk x (components s) None s = Some (s\<lparr>heap := h'\<rparr>)" by simp
    with c' n f hd xs False True show ?thesis by simp
  qed
qed

subsection \<open>Traces and coroutine lists\<close>

lemma init_calls_append [simp]: "init_calls (xs @ ys) = init_calls xs @ init_calls ys"
  by (induction xs rule: init_calls.induct) auto

lemma init_calls_publish [simp]: "init_calls (map publish ms) = []"
  by (induction ms) auto

lemma log_errors_append [simp]: "log_errors (xs @ ys) = log_errors xs @ log_errors ys"
  by (induction xs rule: log_errors.induct) auto

lemma log_errors_publish [simp]: "log_errors (map publish ms) = []"
  by (induction ms) auto

lemma published_append [simp]: "published (xs @ ys) = published xs @ published ys"
  by (induction xs rule: published.induct) auto

lemma published_publish [simp]: "published (map publish ms) = ms"
  by (induction ms) auto

lemma filter_update_count:
  "i < length cs \<Longrightarrow>
   length (filter P (cs[i := y])) + (if P (cs ! i) then 1 else 0) =
   length (filter P cs) + (if P y then 1 else 0)"
proof (induction cs arbitrary: i)
  case Nil
  then show ?case by simp
next
  case (Cons c cs)
  then show ?case by (cases i) auto
qed

lemma filter_update_single:
  "i < length cs \<Longrightarrow> P (cs ! i) \<Longrightarrow> filter P cs = [k] \<Longrightarrow>
   cs ! i = k \<and> filter P (cs[i := y]) = (if P y then [y] else [])"
proof (induction cs arbitrary: i)
  case Nil
  then show ?case by simp
next
  case (Cons c cs)
  show ?case
  proof (cases i)
    case 0
    with Cons.prems show ?thesis by auto
  next
    case (Suc j)
    with Cons.prems have j: "j < length cs" and pj: "P (cs ! j)" by simp_all
    then have "cs ! j \<in> set (filter P cs)" by simp
    then have ne: "filter P cs \<noteq> []" by (metis empty_iff empty_set)
    with Cons.prems(3) have npc: "\<not> P c" and f: "filter P cs = [k]"
      by (auto split: if_splits)
    from Cons.IH [OF j pj f] Suc npc show ?thesis by simp
  qed
qed

lemma filter_update_neutral:
  "i < length cs \<Longrightarrow> \<not> P (cs ! i) \<Longrightarrow> \<not> P y \<Longrightarrow> filter P (cs[i := y]) = filter P cs"
proof (induction cs arbitrary: i)
  case Nil
  then show ?case by simp
next
  case (Cons c cs)
  then show ?case by (cases i) auto
qed

lemma chain_upt_next:
  "is_chain h p [i..<n] \<Longrightarrow> i \<le> c \<Longrightarrow> c < n \<Longrightarrow>
   next_component (h c) = (if Suc c < n then Some (Suc c) else None)"
proof (induction "c - i" arbitrary: i p)
  case 0
  then have ic: "i = c" by simp
  with 0 have "is_chain h p (c # [Suc c..<n])" by (simp add: upt_conv_Cons)
  then have tl: "is_chain h (next_component (h c)) [Suc c..<n]" by simp
  show ?case
  proof (cases "Suc c < n")
    case True
    with tl have "is_chain h (next_component (h c)) (Suc c # [Suc (Suc c)..<n])"
      by (simp add: upt_conv_Cons)
    with True show ?thesis by simp
  next
    case False
    with tl show ?thesis by simp
  qed
next
  case (Suc d)
  then have lt: "i < n" and d: "d = c - Suc i" and le: "Suc i \<le> c" by simp_all
  from Suc.prems(1) lt have "is_chain h p (i # [Suc i..<n])" by (simp add: upt_conv_Cons)
  then have "is_chain h (next_component (h i)) [Suc i..<n]" by simp
  from Suc.hyps(1) [OF d this le Suc.prems(3)] show ?case .
qed

subsection \<open>Steps of the scheduler keep the registry and the single drain\<close>

lemma construct_registry:
  assumes "registry_ok s xs"
  shows "\<exists>s'. construct cls n v i d s = Some s' \<and> registry_ok s' (xs @ [alloc s]) \<and>
           alloc s' = Suc (alloc s) \<and> trace s' = trace s \<and>
           init_queue_start s' =
             (if init_queue_start s = None then Some (alloc s) else init_queue_start s) \<and>
           coros s' = (if init_queue_start s = None then coros s @ [DrainCreated] else coros s)"
proof -
  define s0 where "s0 = new_object cls s"
  have fresh: "alloc s \<notin> set xs" using assms by (auto simp: registry_ok_def)
  have "is_chain (heap s0) (components s) xs = is_chain (heap s) (components s) xs"
    by (rule is_chain_cong_next) (simp add: s0_def new_object_def)
  then have ch: "is_chain (heap s0) (components s0) xs"
    using assms by (simp add: registry_ok_def s0_def new_object_def)
  from init_appends [OF ch fresh, of n v i d] obtain s' where
    r: "init (alloc s) n v i d s0 = Some s'"
    and c: "is_chain (heap s') (components s') (xs @ [alloc s])"
    and rest: "alloc s' = alloc s0" "trace s' = trace s0"
      "init_queue_start s' =
         (if init_queue_start s0 = None then Some (alloc s) else init_queue_start s0)"
      "coros s' = (if init_queue_start s0 = None then coros s0 @ [DrainCreated] else coros s0)"
    by blast
  have s0: "alloc s0 = Suc (alloc s)" "trace s0 = trace s"
    "init_queue_start s0 = init_queue_start s" "coros s0 = coros s"
    by (simp_all add: s0_def new_object_def)
  have "registry_ok s' (xs @ [alloc s])"
    using c assms rest(1) s0(1) by (auto simp: registry_ok_def)
  with r rest s0 show ?thesis by (simp add: construct_def s0_def)
qed

lemma filter_nth_pos: "i < length cs \<Longrightarrow> P (cs ! i) \<Longrightarrow> 0 < length (filter P cs)"
  by (metis filter_empty_conv length_greater_0_conv nth_mem)

lemma drain_loop_frame:
  "heap (drain_loop e i c s) = heap s \<and> components (drain_loop e i c s) = components s \<and>
   alloc (drain_loop e i c s) = alloc s"
  by (cases c) (simp_all add: drain_loop_def init_network_def Let_def)

lemma drain_loop_single:
  assumes i: "i < length (coros s)" and d: "is_drain (coros s ! i)"
    and bal: "live_drains s = (if init_queue_start s = None then 0 else 1)"
  shows "live_drains (drain_loop e i c s) =
           (if init_queue_start (drain_loop e i c s) = None then 0 else 1)"
proof -
  have pos: "0 < live_drains s"
    using filter_nth_pos [of i "coros s" is_drain] i d by (simp add: live_drains_def)
  with bal have q: "init_queue_start s \<noteq> None" and one: "live_drains s = 1"
    by (auto split: if_splits)
  show ?thesis
  proof (cases c)
    case None
    have "length (filter is_drain ((coros s)[i := Returned PyNone])) + 1 =
          length (filter is_drain (coros s))"
      using filter_update_count [OF i, of is_drain "Returned PyNone"] d by simp
    with one have "length (filter is_drain ((coros s)[i := Returned PyNone])) = 0"
      unfolding live_drains_def by linarith
    with None show ?thesis by (simp add: drain_loop_def live_drains_def)
  next
    case (Some a)
    have "length (filter is_drain ((coros s)[i := DrainAwait a])) =
          length (filter is_drain (coros s))"
      using filter_update_count [OF i, of is_drain "DrainAwait a"] d by simp
    with one q Some show ?thesis
      by (auto simp: drain_loop_def live_drains_def init_network_def Let_def)
  qed
qed

lemma step_single_drain:
  assumes reg: "registry_ok s xs"
    and bal: "live_drains s = (if init_queue_start s = None then 0 else 1)"
  shows "\<exists>s' ys. step e a s = Some s' \<and> registry_ok s' ys \<and>
           live_drains s' = (if init_queue_start s' = None then 0 else 1)"
proof (cases a)
  case (Construct cls n v i d)
  from construct_registry [OF reg, of cls n v i d] obtain s' where
    "construct cls n v i d s = Some s'" "registry_ok s' (xs @ [alloc s])"
    "init_queue_start s' =
       (if init_queue_start s = None then Some (alloc s) else init_queue_start s)"
    "coros s' = (if init_queue_start s = None then coros s @ [DrainCreated] else coros s)"
    by blast
  with Construct bal show ?thesis
    by (cases "init_queue_start s") (auto simp: live_drains_def)
next
  case (CallRemove x)
  have "registry_ok (removeComponent_call e x s) xs"
    using reg
    by (cases "resolve e x")
       (simp_all add: removeComponent_call_def comp_remove_def Let_def registry_ok_def)
  moreover have "live_drains (removeComponent_call e x s) = live_drains s"
    "init_queue_start (removeComponent_call e x s) = init_queue_start s"
    by (cases "resolve e x";
        simp add: removeComponent_call_def comp_remove_def Let_def live_drains_def)+
  ultimately show ?thesis using CallRemove bal by auto
next
  case (Resume i)
  show ?thesis
  proof (cases "i < length (coros s)")
    case False
    with Resume reg bal show ?thesis by auto
  next
    case True
    show ?thesis
    proof (cases "coros s ! i")
      case DrainCreated
      then have d: "is_drain (coros s ! i)" by simp
      have "registry_ok (drain_loop e i (init_queue_start s) s) xs"
        using reg drain_loop_frame [of e i "init_queue_start s" s] by (simp add: registry_ok_def)
      with drain_loop_single [OF True d bal, of e "init_queue_start s"] Resume True DrainCreated
      show ?thesis by (auto simp: initNetworkProcess_start_def)
    next
      case (DrainAwait c)
      then have d: "is_drain (coros s ! i)" by simp
      let ?c = "next_component (heap s c)"
      have "registry_ok (drain_loop e i ?c s) xs"
        using reg drain_loop_frame [of e i ?c s] by (simp add: registry_ok_def)
      with drain_loop_single [OF True d bal, of e ?c] Resume True DrainAwait
      show ?thesis by (auto simp: initNetworkProcess_resume_def)
    next
      case (RemoveAwait x)
      from reg have ch: "is_chain (heap s) (components s) xs" by (simp add: registry_ok_def)
      from unlink_walk_registry [OF ch, of x] obtain s2 where
        w: "unlink_walk x (components s) None s = Some s2"
        and c2: "is_chain (heap s2) (components s2) (remove1 x xs)"
        and fr: "init_queue_start s2 = init_queue_start s" "coros s2 = coros s"
          "alloc s2 = alloc s" by blast
      define s' where "s' = s2\<lparr>coros := (coros s2)[i := Returned PyNone]\<rparr>"
      have st: "step e a s = Some s'"
        using Resume True RemoveAwait w by (simp add: removeComponent_resume_def s'_def)
      have "set (remove1 x xs) \<subseteq> set xs" by (rule set_remove1_subset)
      with reg c2 fr have r: "registry_ok s' (remove1 x xs)"
        by (auto simp: registry_ok_def s'_def)
      have "length (filter is_drain ((coros s)[i := Returned PyNone])) =
            length (filter is_drain (coros s))"
        using filter_update_count [OF True, of is_drain "Returned PyNone"] RemoveAwait by simp
      then have "live_drains s' = live_drains s" "init_queue_start s' = init_queue_start s"
        using fr by (simp_all add: live_drains_def s'_def)
      with st r bal show ?thesis by auto
    next
      case (Returned v)
      with Resume True reg bal show ?thesis by auto
    qed
  qed
qed

lemma run_single_drain:
  assumes "registry_ok s xs"
    and "live_drains s = (if init_queue_start s = None then 0 else 1)"
  shows "\<exists>s' ys. run e sched s = Some s' \<and> registry_ok s' ys \<and>
           live_drains s' = (if init_queue_start s' = None then 0 else 1)"
  using assms
proof (induction sched arbitrary: s xs)
  case Nil
  then show ?case by auto
next
  case (Cons a sched)
  from step_single_drain [OF Cons.prems, of e a] obtain s1 ys where
    st: "step e a s = Some s1" and inv: "registry_ok s1 ys"
      "live_drains s1 = (if init_queue_start s1 = None then 0 else 1)" by auto
  from Cons.IH [OF inv] st show ?case by simp
qed

lemma initial_state_ok:
  "registry_ok initial_state [] \<and>
   live_drains initial_state = (if init_queue_start initial_state = None then 0 else 1)"
  by (simp add: registry_ok_def initial_state_def live_drains_def)

subsection \<open>Schedules without removals keep the order of construction\<close>

lemma drain_loop_Some:
  "init_calls (trace (drain_loop e i (Some a) s)) = init_calls (trace s) @ [a] \<and>
   coros (drain_loop e i (Some a) s) = (coros s)[i := DrainAwait a] \<and>
   init_queue_start (drain_loop e i (Some a) s) = init_queue_start s"
  by (simp add: drain_loop_def init_network_def Let_def)

lemma drain_loop_None:
  "trace (drain_loop e i None s) = trace s \<and>
   coros (drain_loop e i None s) = (coros s)[i := Returned PyNone] \<and>
   init_queue_start (drain_loop e i None s) = None"
  by (simp add: drain_loop_def)

lemma no_remove_update:
  "\<forall>k \<in> set cs. \<forall>a. k \<noteq> RemoveAwait a \<Longrightarrow> \<forall>a. y \<noteq> RemoveAwait a \<Longrightarrow>
   \<forall>k \<in> set (cs[i := y]). \<forall>a. k \<noteq> RemoveAwait a"
  using set_update_subset_insert [of cs i y] by blast

lemma drain_loop_fifo:
  assumes inv: "fifo_inv s" and i: "i < length (coros s)" and d: "is_drain (coros s ! i)"
    and c: "(coros s ! i = DrainCreated \<and> c = init_queue_start s) \<or>
            (\<exists>b. coros s ! i = DrainAwait b \<and> c = next_component (heap s b))"
  shows "fifo_inv (drain_loop e i c s)"
proof -
  let ?s' = "drain_loop e i c s"
  from inv have ch: "is_chain (heap s) (components s) [0..<alloc s]"
    and nr: "\<forall>k \<in> set (coros s). \<forall>a. k \<noteq> RemoveAwait a" by (simp_all add: fifo_inv_def)
  have fr: "heap ?s' = heap s" "components ?s' = components s" "alloc ?s' = alloc s"
    using drain_loop_frame [of e i c s] by simp_all
  have ne: "drains s \<noteq> []"
    using filter_nth_pos [of i "coros s" is_drain] i d by (simp add: drains_def)
  with inv obtain p where p: "init_queue_start s = Some p"
    by (cases "init_queue_start s") (auto simp: fifo_inv_def)
  from inv p have alt:
    "(drains s = [DrainCreated] \<and> p < alloc s \<and> init_calls (trace s) = [0..<p]) \<or>
     (\<exists>b. drains s = [DrainAwait b] \<and> b < alloc s \<and> init_calls (trace s) = [0..<Suc b])"
    by (simp add: fifo_inv_def)
  then obtain k where k: "drains s = [k]" by auto
  have upd: "coros s ! i = k"
    "\<And>y. filter is_drain ((coros s)[i := y]) = (if is_drain y then [y] else [])"
    using filter_update_single [of i "coros s" is_drain k] i d k by (simp_all add: drains_def)
  from c show ?thesis
  proof
    assume "coros s ! i = DrainCreated \<and> c = init_queue_start s"
    then have kc: "k = DrainCreated" and cp: "c = Some p" using upd(1) p by simp_all
    with alt k have pa: "p < alloc s" and tr: "init_calls (trace s) = [0..<p]" by auto
    have "drains ?s' = [DrainAwait p]"
      using upd(2) [of "DrainAwait p"] drain_loop_Some [of e i p s] cp by (simp add: drains_def)
    moreover have "init_calls (trace ?s') = [0..<Suc p]"
      using drain_loop_Some [of e i p s] cp tr by simp
    moreover have "init_queue_start ?s' = Some p"
      using drain_loop_Some [of e i p s] cp p by simp
    moreover have "\<forall>k \<in> set (coros ?s'). \<forall>a. k \<noteq> RemoveAwait a"
      using no_remove_update [OF nr, of "DrainAwait p" i] drain_loop_Some [of e i p s] cp by simp
    ultimately show ?thesis using ch fr pa by (simp add: fifo_inv_def)
  next
    assume "\<exists>b. coros s ! i = DrainAwait b \<and> c = next_component (heap s b)"
    then obtain b where kb: "k = DrainAwait b" and cb: "c = next_component (heap s b)"
      using upd(1) by auto
    with alt k have ba: "b < alloc s" and tr: "init_calls (trace s) = [0..<Suc b]" by auto
    have nx: "c = (if Suc b < alloc s then Some (Suc b) else None)"
      using chain_upt_next [OF ch _ ba] cb by simp
    show ?thesis
    proof (cases "Suc b < alloc s")
      case True
      with nx have cs: "c = Some (Suc b)" by simp
      have "drains ?s' = [DrainAwait (Suc b)]"
        using upd(2) [of "DrainAwait (Suc b)"] drain_loop_Some [of e i "Suc b" s] cs
        by (simp add: drains_def)
      moreover have "init_calls (trace ?s') = [0..<Suc (Suc b)]"
        using drain_loop_Some [of e i "Suc b" s] cs tr by simp
      moreover have "init_queue_start ?s' = Some p"
        using drain_loop_Some [of e i "Suc b" s] cs p by simp
      moreover have "\<forall>k \<in> set (coros ?s'). \<forall>a. k \<noteq> RemoveAwait a"
        using no_remove_update [OF nr, of "DrainAwait (Suc b)" i]
          drain_loop_Some [of e i "Suc b" s] cs by simp
      ultimately show ?thesis using ch fr True by (simp add: fifo_inv_def)
    next
      case False
      with nx ba have cn: "c = None" and eq: "Suc b = alloc s" by simp_all
      have "drains ?s' = []"
        using upd(2) [of "Returned PyNone"] drain_loop_None [of e i s] cn
        by (simp add: drains_def)
      moreover have "init_calls (trace ?s') = [0..<alloc s]"
        using drain_loop_None [of e i s] cn tr eq by simp
      moreover have "init_queue_start ?s' = None"
        using drain_loop_None [of e i s] cn by simp
      moreover have "\<forall>k \<in> set (coros ?s'). \<forall>a. k \<noteq> RemoveAwait a"
        using no_remove_update [OF nr, of "Returned PyNone" i] drain_loop_None [of e i s] cn
        by simp
      ultimately show ?thesis using ch fr by (simp add: fifo_inv_def)
    qed
  qed
qed

lemma construct_fifo:
  assumes inv: "fifo_inv s"
  shows "\<exists>s'. construct cls n v i d s = Some s' \<and> fifo_inv s' \<and> alloc s' = Suc (alloc s)"
proof -
  from inv have reg: "registry_ok s [0..<alloc s]" by (simp add: fifo_inv_def registry_ok_def)
  from construct_registry [OF reg, of cls n v i d] obtain s' where
    r: "construct cls n v i d s = Some s'"
    and reg': "registry_ok s' ([0..<alloc s] @ [alloc s])"
    and al: "alloc s' = Suc (alloc s)" and tr: "trace s' = trace s"
    and q: "init_queue_start s' =
       (if init_queue_start s = None then Some (alloc s) else init_queue_start s)"
    and cs: "coros s' = (if init_queue_start s = None then coros s @ [DrainCreated] else coros s)"
    by blast
  have ch: "is_chain (heap s') (components s') [0..<alloc s']"
    using reg' al by (simp add: registry_ok_def)
  have "fifo_inv s'"
  proof (cases "init_queue_start s")
    case None
    with inv have "drains s = []" "init_calls (trace s) = [0..<alloc s]"
      "\<forall>k \<in> set (coros s). \<forall>a. k \<noteq> RemoveAwait a"
      by (simp_all add: fifo_inv_def)
    with None ch al tr q cs show ?thesis by (simp add: fifo_inv_def drains_def)
  next
    case (Some p)
    with inv have
      "(drains s = [DrainCreated] \<and> p < alloc s \<and> init_calls (trace s) = [0..<p]) \<or>
       (\<exists>c. drains s = [DrainAwait c] \<and> c < alloc s \<and> init_calls (trace s) = [0..<Suc c])"
      "\<forall>k \<in> set (coros s). \<forall>a. k \<noteq> RemoveAwait a"
      by (simp_all add: fifo_inv_def)
    with Some ch al tr q cs show ?thesis by (auto simp: fifo_inv_def drains_def)
  qed
  with r al show ?thesis by blast
qed

lemma step_fifo:
  assumes inv: "fifo_inv s" and nr: "\<not> is_call_remove a"
  shows "\<exists>s'. step e a s = Some s' \<and> fifo_inv s' \<and>
           alloc s' = alloc s + (if is_construct a then 1 else 0)"
proof (cases a)
  case (Construct cls n v i d)
  with construct_fifo [OF inv, of cls n v i d] show ?thesis by auto
next
  case (CallRemove x)
  with nr show ?thesis by simp
next
  case (Resume i)
  show ?thesis
  proof (cases "i < length (coros s)")
    case False
    with Resume inv show ?thesis by simp
  next
    case True
    show ?thesis
    proof (cases "coros s ! i")
      case DrainCreated
      with drain_loop_fifo [OF inv True, of "init_queue_start s" e] Resume True
      show ?thesis
        using drain_loop_frame [of e i "init_queue_start s" s]
        by (simp add: initNetworkProcess_start_def)
    next
      case (DrainAwait b)
      with drain_loop_fifo [OF inv True, of "next_component (heap s b)" e] Resume True
      show ?thesis
        using drain_loop_frame [of e i "next_component (heap s b)" s]
        by (simp add: initNetworkProcess_resume_def)
    next
      case (RemoveAwait x)
      with inv True have False by (auto simp: fifo_inv_def dest: nth_mem)
      then show ?thesis ..
    next
      case (Returned v)
      with Resume True inv show ?thesis by simp
    qed
  qed
qed

lemma run_fifo:
  assumes "fifo_inv s" and "\<forall>a \<in> set sched. \<not> is_call_remove a"
  shows "\<exists>s'. run e sched s = Some s' \<and> fifo_inv s' \<and>
           alloc s' = alloc s + length (filter is_construct sched)"
  using assms
proof (induction sched arbitrary: s)
  case Nil
  then show ?case by simp
next
  case (Cons a sched)
  then have na: "\<not> is_call_remove a" and rest: "\<forall>a \<in> set sched. \<not> is_call_remove a"
    by simp_all
  from step_fifo [OF Cons.prems(1) na, of e] obtain s1 where
    st: "step e a s = Some s1" and inv: "fifo_inv s1"
    and al: "alloc s1 = alloc s + (if is_construct a then 1 else 0)" by auto
  from Cons.IH [OF inv rest] st al show ?case by auto
qed

lemma initial_state_fifo: "fifo_inv initial_state"
  by (simp add: fifo_inv_def initial_state_def drains_def)

lemma run_two_constructions: "run e two_constructions initial_state = Some two_components"
  unfolding two_constructions_def two_components_def initial_state_def
  by (simp add: construct_def new_object_def init_def Let_def append_walk.simps fun_eq_iff)

lemma removal_free_set: "removal_free sched \<Longrightarrow> \<forall>a \<in> set sched. \<not> is_call_remove a"
  by (induction sched) auto

lemma run_append:
  "run e (xs @ ys) s = (case run e xs s of None \<Rightarrow> None | Some s' \<Rightarrow> run e ys s')"
  by (induction xs arbitrary: s) (auto split: option.splits)

lemma run_drain_interleaved:
  "map_option (\<lambda>s. (init_queue_start s, alloc s, live_drains s))
     (run example_env drain_interleaved initial_state) = Some (None, 3, 0)"
  by (simp add: drain_interleaved_def run_append run_two_constructions two_components_def
      construct_def new_object_def init_def Let_def append_walk.simps
      initNetworkProcess_start_def initNetworkProcess_resume_def drain_loop_def
      init_network_def live_drains_def)

lemma removeComponent_Some:
  assumes ch: "is_chain (heap s) (components s) xs" and rs: "resolve e arg = Some x"
  shows "\<exists>s'. removeComponent e arg s = Some (PyNone, s') \<and>
           unlink_walk x (components s) None (comp_remove e x s) = Some s' \<and>
           trace s' = trace (comp_remove e x s) \<and>
           is_chain (heap s') (components s') (remove1 x xs) \<and>
           next_component (heap s' x) = next_component (heap s x) \<and>
           init_queue_start s' = init_queue_start s \<and> coros s' = coros s \<and>
           alloc s' = alloc s \<and>
           (\<forall>b. b \<notin> set xs \<longrightarrow> heap s' b = heap s b) \<and>
           (x \<notin> set xs \<longrightarrow> heap s' = heap s \<and> components s' = components s)"
proof -
  define s1 where "s1 = comp_remove e x s"
  have fr: "heap s1 = heap s" "components s1 = components s"
    "init_queue_start s1 = init_queue_start s" "coros s1 = coros s" "alloc s1 = alloc s"
    by (simp_all add: s1_def comp_remove_def Let_def)
  from ch fr have ch1: "is_chain (heap s1) (components s1) xs" by simp
  from unlink_walk_registry [OF ch1, of x] obtain s' where
    w: "unlink_walk x (components s1) None s1 = Some s'"
    and p: "is_chain (heap s') (components s') (remove1 x xs)"
      "next_component (heap s' x) = next_component (heap s1 x)"
      "init_queue_start s' = init_queue_start s1" "coros s' = coros s1"
      "trace s' = trace s1" "alloc s' = alloc s1"
      "\<forall>b. b \<notin> set xs \<longrightarrow> heap s' b = heap s1 b"
      "x \<notin> set xs \<longrightarrow> s' = s1" by (elim exE conjE)
  have "removeComponent e arg s = Some (PyNone, s')"
    using w rs by (simp add: removeComponent_def Let_def s1_def [symmetric])
  moreover have "unlink_walk x (components s) None (comp_remove e x s) = Some s'"
    using w fr by (simp add: s1_def)
  moreover have "x \<notin> set xs \<longrightarrow> heap s' = heap s \<and> components s' = components s"
    using p(8) fr by auto
  ultimately show ?thesis using p(1-7) fr unfolding s1_def [symmetric]
    by (intro exI [of _ s'] conjI) simp_all
qed

lemma run_first_removed:
  "run example_env (two_constructions @ [CallRemove (Comp 0), Resume 1]) initial_state =
     Some first_removed"
  by (simp add: run_append run_two_constructions removeComponent_call_def comp_remove_def
      removeComponent_resume_def unlink_walk.simps Let_def two_components_def first_removed_def
      example_env_def base_discovery_def)



section \<open>The claims\<close>

text \<open>
  Claim C7. For every component type and unique name, \<^verbatim>\<open>_getDiscoveryTopic\<close> returns
  the discovery prefix of the configuration, the component type, the device identifier and
  the unique name, joined by slashes and followed by \<^verbatim>\<open>/config\<close>. The result is a
  function of the two arguments, the prefix and the device identifier, and of nothing else.
\<close>

theorem discovery_topic_format:
  "getDiscoveryTopic e component_type name =
     Some (MQTT_DISCOVERY_PREFIX e @ ''/'' @ component_type @ ''/'' @ getDeviceID e @ ''/'' @
           name @ ''/config'')"
  by (simp add: getDiscoveryTopic_def)

theorem discovery_topic_format_witness:
  "getDiscoveryTopic example_env ''sensor'' ''PMS50030'' =
     Some ''homeassistant/sensor/dev1/PMS50030/config''"
  using discovery_topic_format [of example_env "''sensor''" "''PMS50030''"]
  by (simp add: example_env_def)

text \<open>
  Claim C8. \<^verbatim>\<open>_composeDiscoveryMsg\<close> formats \<^verbatim>\<open>DISCOVERY_BASE\<close> with seven
  arguments. A friendly name that is not supplied is replaced by the unique name; a state
  topic that is a device topic is replaced by its real topic, any other topic is embedded as
  it is; the fifth argument is the availability fragment when \<^verbatim>\<open>no_avail\<close> is false
  and the empty string when it is true.
\<close>

theorem compose_discovery_msg_parts:
  "composeDiscoveryMsg e t n ctd fn na =
     Option.bind (composeDiscoveryArgs e t n ctd fn na) (format_s (DISCOVERY_BASE e)) \<and>
   composeDiscoveryArgs e t n ctd None na = composeDiscoveryArgs e t n ctd (Some n) na \<and>
   composeDiscoveryArgs e t n ctd fn True =
     Some [if isDeviceTopic e t then getRealTopic e t else t,
           case fn of None \<Rightarrow> n | Some f \<Rightarrow> if f = [] then n else f,
           getDeviceID e, n, [], ctd, getDeviceDiscovery e] \<and>
   composeDiscoveryArgs e t n ctd fn False =
     map_option
       (\<lambda>avail. [if isDeviceTopic e t then getRealTopic e t else t,
                  case fn of None \<Rightarrow> n | Some f \<Rightarrow> if f = [] then n else f,
                  getDeviceID e, n, avail, ctd, getDeviceDiscovery e])
       (composeAvailability e)"
  by (simp add: composeDiscoveryMsg_def composeDiscoveryArgs_def Let_def
      split: option.splits)

theorem compose_discovery_msg_parts_witness:
  "composeDiscoveryMsg example_env ''./pms/pm10'' ''PMS50030'' ''unit,'' None False =
     Some ''{home/dev1/pms/pm10,PMS50030,dev1_PMS50030,home/dev1/available,unit,{}}'' \<and>
   composeDiscoveryMsg example_env ''raw/pm10'' ''PMS50030'' ''unit,'' (Some ''Dust'') True =
     Some ''{raw/pm10,Dust,dev1_PMS50030,unit,{}}''"
proof -
  note p1 = compose_discovery_msg_parts
              [of example_env "''./pms/pm10''" "''PMS50030''" "''unit,''" None False]
  note p2 = compose_discovery_msg_parts
              [of example_env "''raw/pm10''" "''PMS50030''" "''unit,''" "Some ''Dust''" True]
  have env: "isDeviceTopic example_env ''./pms/pm10''" "\<not> isDeviceTopic example_env ''raw/pm10''"
    "getRealTopic example_env ''./pms/pm10'' = ''home/dev1/pms/pm10''"
    "getDeviceID example_env = ''dev1''" "getDeviceDiscovery example_env = ''{}''"
    "DISCOVERY_BASE example_env = ''{{{!s},{!s},{!s}_{!s},{!s}{!s}{!s}}}''"
    "composeAvailability example_env = Some ''home/dev1/available,''"
    by (simp_all add: example_env_def composeAvailability_def)
  have "composeDiscoveryMsg example_env ''./pms/pm10'' ''PMS50030'' ''unit,'' None False =
     Some ''{home/dev1/pms/pm10,PMS50030,dev1_PMS50030,home/dev1/available,unit,{}}''"
    by (simp add: p1 [THEN conjunct1] p1 [THEN conjunct2, THEN conjunct2, THEN conjunct2] env)
  moreover
  have "composeDiscoveryMsg example_env ''raw/pm10'' ''PMS50030'' ''unit,'' (Some ''Dust'') True =
     Some ''{raw/pm10,Dust,dev1_PMS50030,unit,{}}''"
    by (simp add: p2 [THEN conjunct1] p2 [THEN conjunct2, THEN conjunct2, THEN conjunct1] env)
  ultimately show ?thesis by simp
qed

text \<open>
  Claim C3. Whatever chain the registry is, the constructor of a new component makes it the
  chain followed by that component. The head becomes the new component when the registry
  was empty and stays what it was otherwise; the objects registered before are unchanged,
  except that the \<^verbatim>\<open>_next_component\<close> of the former tail now refers to the new
  component.
\<close>

theorem register_appends_at_tail:
  assumes "is_chain (heap s) (components s) xs" and "self \<notin> set xs"
  shows "\<exists>s'. init self n v i d s = Some s' \<and>
           is_chain (heap s') (components s') (xs @ [self]) \<and>
           components s' = (if xs = [] then Some self else components s) \<and>
           (\<forall>b \<in> set xs. b \<noteq> last xs \<longrightarrow> heap s' b = heap s b) \<and>
           (xs \<noteq> [] \<longrightarrow>
              heap s' (last xs) = (heap s (last xs))\<lparr>next_component := Some self\<rparr>)"
proof -
  from init_appends [OF assms, of n v i d] obtain s' where
    "init self n v i d s = Some s'"
    "is_chain (heap s') (components s') (xs @ [self])"
    "components s' = (if xs = [] then Some self else components s)"
    "\<forall>b. b \<noteq> self \<and> (xs = [] \<or> b \<noteq> last xs) \<longrightarrow> heap s' b = heap s b"
    "xs \<noteq> [] \<longrightarrow> heap s' (last xs) = (heap s (last xs))\<lparr>next_component := Some self\<rparr>"
    by blast
  with assms(2) show ?thesis by (intro exI [of _ s']) auto
qed

theorem register_appends_at_tail_witness:
  "is_chain (heap two_components) (components two_components) [0, 1] \<and> 2 \<notin> set [0, 1::nat] \<and>
   (\<exists>s'. init 2 ''C'' ''1'' 0 True two_components = Some s' \<and>
      is_chain (heap s') (components s') [0, 1, 2] \<and> components s' = Some 0 \<and>
      heap s' 0 = heap two_components 0 \<and> next_component (heap s' 1) = Some 2) \<and>
   (\<exists>s'. init 0 ''A'' ''1'' 0 True initial_state = Some s' \<and> components s' = Some 0 \<and>
      is_chain (heap s') (components s') [0])"
proof -
  have c: "is_chain (heap two_components) (components two_components) [0, 1]"
    by (simp add: two_components_def)
  have f: "2 \<notin> set [0, 1::nat]" by simp
  have c0: "is_chain (heap initial_state) (components initial_state) []"
    by (simp add: initial_state_def)
  have f0: "(0::nat) \<notin> set []" by simp
  have l: "last [0, 1::nat] = 1" "components two_components = Some 0" 
    by (simp_all add: two_components_def)
  from register_appends_at_tail [OF c f, of "''C''" "''1''" 0 True]
    register_appends_at_tail [OF c0 f0, of "''A''" "''1''" 0 True]
  show ?thesis using c l by auto
qed

text \<open>
  Claim C9. When the \<^verbatim>\<open>friendly_name\<close> argument of the PMS5003 constructor is a list
  whose length is not 12, or is not a list, exactly one warning is logged, every sensor
  type is added with its own name as friendly name, and no exception is raised.
\<close>

theorem pms5003_bad_friendly_name:
  assumes "bad_friendly_name friendly_name"
  shows "\<exists>w. pms5003_sensor_types friendly_name =
           Some ([w], map (\<lambda>(tp, u). (tp, u, OStr tp)) (zip TYPES UNITS))"
proof (cases friendly_name)
  case (OList xs)
  with assms have "length xs \<noteq> 12" by simp
  with OList show ?thesis
    by (simp add: pms5003_sensor_types_def sensor_type_args_def TYPES_def UNITS_def py_get_def)
qed (simp_all add: pms5003_sensor_types_def sensor_type_args_def TYPES_def UNITS_def py_get_def)

theorem pms5003_bad_friendly_name_witness:
  "bad_friendly_name (OList [OStr ''dust'']) \<and> bad_friendly_name ONone \<and>
   map_option fst (pms5003_sensor_types (OList [OStr ''dust''])) =
     Some [''Length of friendly name is wrong, expected 12 got 1''] \<and>
   map_option snd (pms5003_sensor_types (OList [OStr ''dust''])) =
     Some (map (\<lambda>(tp, u). (tp, u, OStr tp)) (zip TYPES UNITS)) \<and>
   map_option snd (pms5003_sensor_types ONone) =
     Some (map (\<lambda>(tp, u). (tp, u, OStr tp)) (zip TYPES UNITS))"
proof -
  have a: "bad_friendly_name (OList [OStr ''dust''])" by simp
  have b: "bad_friendly_name ONone" by simp
  have w: "map_option fst (pms5003_sensor_types (OList [OStr ''dust''])) =
     Some [''Length of friendly name is wrong, expected 12 got 1'']"
    by (simp add: pms5003_sensor_types_def sensor_type_args_def TYPES_def UNITS_def py_get_def)
  from pms5003_bad_friendly_name [OF a] pms5003_bad_friendly_name [OF b] a b w
  show ?thesis by auto
qed

text \<open>
  Claim C1. After any schedule of constructor calls, removals and resumptions, at most
  one drain coroutine has not returned. A constructor call in the state reached creates
  the drain task exactly when \<^verbatim>\<open>_init_queue_start\<close> is \<^verbatim>\<open>None\<close>, and
  then sets the pointer to the new component; when the pointer is set it creates no task
  and leaves the pointer alone. Either way the new component is appended to the chain of
  the registry, and exactly one drain is alive afterwards.
\<close>

theorem single_drain_process:
  "\<exists>s. run e sched initial_state = Some s \<and> live_drains s \<le> 1 \<and>
     (\<forall>cls n v i d. \<exists>s' xs.
        construct cls n v i d s = Some s' \<and>
        coros s' = (if init_queue_start s = None then coros s @ [DrainCreated] else coros s) \<and>
        init_queue_start s' =
          (if init_queue_start s = None then Some (alloc s) else init_queue_start s) \<and>
        live_drains s' = 1 \<and>
        is_chain (heap s) (components s) xs \<and>
        is_chain (heap s') (components s') (xs @ [alloc s]))"
proof -
  have i: "registry_ok initial_state []"
    "live_drains initial_state = (if init_queue_start initial_state = None then 0 else 1)"
    using initial_state_ok by simp_all
  from run_single_drain [OF i, of e sched] obtain s xs where
    r: "run e sched initial_state = Some s" and reg: "registry_ok s xs"
    and bal: "live_drains s = (if init_queue_start s = None then 0 else 1)"
    by auto
  have "\<exists>s' xs.
        construct cls n v i d s = Some s' \<and>
        coros s' = (if init_queue_start s = None then coros s @ [DrainCreated] else coros s) \<and>
        init_queue_start s' =
          (if init_queue_start s = None then Some (alloc s) else init_queue_start s) \<and>
        live_drains s' = 1 \<and>
        is_chain (heap s) (components s) xs \<and>
        is_chain (heap s') (components s') (xs @ [alloc s])" for cls n v i d
  proof -
    from construct_registry [OF reg, of cls n v i d] obtain s' where
      c: "construct cls n v i d s = Some s'" and reg': "registry_ok s' (xs @ [alloc s])"
      and q: "init_queue_start s' =
         (if init_queue_start s = None then Some (alloc s) else init_queue_start s)"
      and cs: "coros s' = (if init_queue_start s = None then coros s @ [DrainCreated] else coros s)"
      by blast
    have "live_drains s' = 1"
      using bal cs by (cases "init_queue_start s") (simp_all add: live_drains_def)
    with c reg reg' q cs show ?thesis unfolding registry_ok_def by blast
  qed
  moreover have "live_drains s \<le> 1" using bal by simp
  ultimately show ?thesis using r by blast
qed

theorem single_drain_process_witness:
  "\<exists>s. run example_env two_constructions initial_state = Some s \<and> live_drains s = 1 \<and>
     init_queue_start s = Some 0 \<and>
     (\<exists>s'. construct base_discovery ''C'' ''1'' 2 True s = Some s' \<and>
        coros s' = [DrainCreated] \<and> init_queue_start s' = Some 0 \<and>
        is_chain (heap s') (components s') [0, 1, 2])"
proof -
  from single_drain_process [of example_env two_constructions] obtain s where
    r: "run example_env two_constructions initial_state = Some s"
    and c: "\<And>cls n v i d. \<exists>s' xs.
        construct cls n v i d s = Some s' \<and>
        coros s' = (if init_queue_start s = None then coros s @ [DrainCreated] else coros s) \<and>
        init_queue_start s' =
          (if init_queue_start s = None then Some (alloc s) else init_queue_start s) \<and>
        live_drains s' = 1 \<and>
        is_chain (heap s) (components s) xs \<and>
        is_chain (heap s') (components s') (xs @ [alloc s])"
    by blast
  from r have s: "s = two_components" by (simp add: run_two_constructions)
  have f: "live_drains two_components = 1" "init_queue_start two_components = Some 0"
    "coros two_components = [DrainCreated]" "alloc two_components = 2"
    "is_chain (heap two_components) (components two_components) [0, 1]"
    by (simp_all add: two_components_def live_drains_def)
  from c [of base_discovery "''C''" "''1''" 2 True] obtain s' xs where
    c': "construct base_discovery ''C'' ''1'' 2 True s = Some s'"
    "coros s' = [DrainCreated]" "init_queue_start s' = Some 0"
    "is_chain (heap s) (components s) xs" "is_chain (heap s') (components s') (xs @ [2])"
    using s f by auto
  from c'(4) f(5) s have "xs = [0, 1]" using is_chain_unique by blast
  with c' r f s show ?thesis by auto
qed

text \<open>
  The order of the hooks when no removal is scheduled. In every schedule of constructor
  calls and resumptions, the \<open>k\<close>-th constructor call creates the object at address \<open>k\<close>, the registry is the
  chain of all objects in that order, and the hooks the drain has called so far are those
  of the first objects, in that order, none left out or repeated: an object registered
  later has its hook called only after every object registered before it. Whenever
  \<^verbatim>\<open>_init_queue_start\<close> is \<^verbatim>\<open>None\<close> again, the hooks called are those of all
  objects constructed, in the order of construction; this includes the objects constructed
  while the drain was suspended.
\<close>

theorem drain_order_is_construction_order:
  assumes "removal_free sched"
  shows "\<exists>s. run e sched initial_state = Some s \<and>
           alloc s = length (filter is_construct sched) \<and>
           is_chain (heap s) (components s) [0..<alloc s] \<and>
           (\<exists>k. k \<le> alloc s \<and> init_calls (trace s) = [0..<k]) \<and>
           (init_queue_start s = None \<longrightarrow> init_calls (trace s) = [0..<alloc s])"
proof -
  from run_fifo [OF initial_state_fifo removal_free_set [OF assms], of e] obtain s where
    r: "run e sched initial_state = Some s" and inv: "fifo_inv s"
    and al: "alloc s = alloc initial_state + length (filter is_construct sched)" by blast
  have "\<exists>k. k \<le> alloc s \<and> init_calls (trace s) = [0..<k]"
  proof (cases "init_queue_start s")
    case None
    with inv show ?thesis by (auto simp: fifo_inv_def)
  next
    case (Some p)
    with inv have
      "(p < alloc s \<and> init_calls (trace s) = [0..<p]) \<or>
       (\<exists>c. c < alloc s \<and> init_calls (trace s) = [0..<Suc c])"
      by (auto simp: fifo_inv_def)
    then show ?thesis
    proof
      assume "p < alloc s \<and> init_calls (trace s) = [0..<p]"
      then show ?thesis by (intro exI [of _ p]) simp
    next
      assume "\<exists>c. c < alloc s \<and> init_calls (trace s) = [0..<Suc c]"
      then obtain c where "c < alloc s" "init_calls (trace s) = [0..<Suc c]" by blast
      then show ?thesis by (intro exI [of _ "Suc c"]) simp
    qed
  qed
  moreover have "init_queue_start s = None \<longrightarrow> init_calls (trace s) = [0..<alloc s]"
    using inv by (auto simp: fifo_inv_def)
  moreover have "is_chain (heap s) (components s) [0..<alloc s]"
    using inv by (simp add: fifo_inv_def)
  ultimately show ?thesis using r al by (auto simp: initial_state_def)
qed

theorem drain_order_is_construction_order_witness:
  "removal_free drain_interleaved \<and>
   (\<exists>s. run example_env drain_interleaved initial_state = Some s \<and> alloc s = 3 \<and>
      init_queue_start s = None \<and> init_calls (trace s) = [0, 1, 2])"
proof -
  have rf: "removal_free drain_interleaved"
    by (simp add: drain_interleaved_def two_constructions_def)
  from drain_order_is_construction_order [OF rf, of example_env] obtain s where
    r: "run example_env drain_interleaved initial_state = Some s"
    and i: "init_queue_start s = None \<longrightarrow> init_calls (trace s) = [0..<alloc s]"
    by (elim exE conjE)
  from run_drain_interleaved have f: "init_queue_start s = None" "alloc s = 3"
    unfolding r by simp_all
  have u: "[0..<3] = [0, 1, 2::nat]" by (simp add: upt_rec)
  from i f have "init_calls (trace s) = [0..<3]" by simp
  with u have t: "init_calls (trace s) = [0, 1, 2]" by (simp only:)
  from r f t have "\<exists>s. run example_env drain_interleaved initial_state = Some s \<and>
      alloc s = 3 \<and> init_queue_start s = None \<and> init_calls (trace s) = [0, 1, 2]"
    by (intro exI [of _ s] conjI)
  with rf show ?thesis by (rule conjI)
qed

text \<open>
  Claim C2 against the code. The hooks are called in the order of registration as long as
  no component is removed while the drain is under way, and not otherwise. In the schedule
  \<open>removal_during_drain\<close> the drain is suspended in the hook of the first component when
  that component is removed. The second component then becomes the head of the registry,
  and no task is created for it, because \<^verbatim>\<open>_init_queue_start\<close> is still set. The
  drain, resumed, reads \<^verbatim>\<open>_next_component\<close> of the removed object, which is still
  \<^verbatim>\<open>None\<close>, ends and resets the pointer. The third component creates a new drain
  that starts at the third component. The registry is the chain of the second and the
  third component, and the hooks called are those of the first and the third: the second,
  registered before the third and never removed, is never initialised.
\<close>

theorem removal_during_drain_skips_component:
  "run example_env removal_during_drain initial_state = Some second_skipped \<and>
   is_chain (heap second_skipped) (components second_skipped) [1, 2] \<and>
   init_queue_start second_skipped = None \<and>
   init_calls (trace second_skipped) = [0, 2]"
  unfolding removal_during_drain_def second_skipped_def initial_state_def
  by (simp add: construct_def new_object_def init_def Let_def append_walk.simps
      initNetworkProcess_start_def initNetworkProcess_resume_def drain_loop_def
      init_network_def removeComponent_call_def comp_remove_def removeComponent_resume_def
      unlink_walk.simps example_env_def base_discovery_def fun_eq_iff)

text \<open>
  Claim C10. When the registry is a chain, \<^verbatim>\<open>removeComponent\<close> of a component
  returns with the component unlinked, and it has changed neither the
  \<^verbatim>\<open>_next_component\<close> of the removed object nor \<^verbatim>\<open>_init_queue_start\<close>,
  nor any coroutine. So a drain that was created with the pointer at the removed component
  still calls the hook of that component when it starts, and a drain suspended in the hook
  of the removed component goes on, when resumed, with what the removed object's
  \<^verbatim>\<open>_next_component\<close> was before the removal.
\<close>

theorem unlink_keeps_next_and_drain_pointer:
  assumes "is_chain (heap s) (components s) xs"
  shows "\<exists>s'. removeComponent e (Comp x) s = Some (PyNone, s') \<and>
           is_chain (heap s') (components s') (remove1 x xs) \<and>
           next_component (heap s' x) = next_component (heap s x) \<and>
           init_queue_start s' = init_queue_start s \<and> coros s' = coros s \<and>
           init_calls (trace s') = init_calls (trace s) \<and>
           (\<forall>i. i < length (coros s) \<and> coros s ! i = DrainCreated \<and>
                init_queue_start s = Some x \<longrightarrow>
                (\<exists>s1. step e (Resume i) s' = Some s1 \<and>
                   init_calls (trace s1) = init_calls (trace s') @ [x] \<and>
                   coros s1 ! i = DrainAwait x \<and>
                   step e (Resume i) s1 =
                     Some (drain_loop e i (next_component (heap s x)) s1))) \<and>
           (\<forall>i. i < length (coros s) \<and> coros s ! i = DrainAwait x \<longrightarrow>
                step e (Resume i) s' = Some (drain_loop e i (next_component (heap s x)) s'))"
proof -
  have rs: "resolve e (Comp x) = Some x" by simp
  from removeComponent_Some [OF assms rs] obtain s' where
    r: "removeComponent e (Comp x) s = Some (PyNone, s')"
    and t: "trace s' = trace (comp_remove e x s)"
    and c: "is_chain (heap s') (components s') (remove1 x xs)"
    and n: "next_component (heap s' x) = next_component (heap s x)"
    and q: "init_queue_start s' = init_queue_start s" and cs: "coros s' = coros s"
    by (elim exE conjE)
  have ic: "init_calls (trace s') = init_calls (trace s)"
    by (simp add: t comp_remove_def Let_def)
  have created: "\<exists>s1. step e (Resume i) s' = Some s1 \<and>
      init_calls (trace s1) = init_calls (trace s') @ [x] \<and> coros s1 ! i = DrainAwait x \<and>
      step e (Resume i) s1 = Some (drain_loop e i (next_component (heap s x)) s1)"
    if i: "i < length (coros s)" and d: "coros s ! i = DrainCreated"
      and p: "init_queue_start s = Some x" for i
  proof -
    define s1 where "s1 = drain_loop e i (Some x) s'"
    have st: "step e (Resume i) s' = Some s1"
      using i d p q cs by (simp add: initNetworkProcess_start_def s1_def)
    have f: "init_calls (trace s1) = init_calls (trace s') @ [x]"
      "coros s1 = (coros s')[i := DrainAwait x]"
      using drain_loop_Some [of e i x s'] by (simp_all add: s1_def)
    have h: "heap s1 = heap s'" using drain_loop_frame [of e i "Some x" s'] by (simp add: s1_def)
    have ci: "coros s1 ! i = DrainAwait x" using f(2) i cs by simp
    have "step e (Resume i) s1 = Some (drain_loop e i (next_component (heap s x)) s1)"
      using ci f(2) i cs h n by (simp add: initNetworkProcess_resume_def)
    with st f(1) ci show ?thesis by (intro exI [of _ s1] conjI)
  qed
  have awaiting: "step e (Resume i) s' = Some (drain_loop e i (next_component (heap s x)) s')"
    if "i < length (coros s)" and "coros s ! i = DrainAwait x" for i
    using that cs n by (simp add: initNetworkProcess_resume_def)
  show ?thesis
  proof (rule exI [of _ s'], intro conjI allI impI)
    fix i
    assume "i < length (coros s) \<and> coros s ! i = DrainCreated \<and> init_queue_start s = Some x"
    then show "\<exists>s1. step e (Resume i) s' = Some s1 \<and>
      init_calls (trace s1) = init_calls (trace s') @ [x] \<and> coros s1 ! i = DrainAwait x \<and>
      step e (Resume i) s1 = Some (drain_loop e i (next_component (heap s x)) s1)"
      using created by simp
  next
    fix i
    assume "i < length (coros s) \<and> coros s ! i = DrainAwait x"
    then show "step e (Resume i) s' = Some (drain_loop e i (next_component (heap s x)) s')"
      using awaiting by simp
  qed (fact r c n q cs ic)+
qed

theorem unlink_keeps_next_and_drain_pointer_witness:
  "is_chain (heap two_components) (components two_components) [0, 1] \<and>
   (\<exists>s'. removeComponent example_env (Comp 0) two_components = Some (PyNone, s') \<and>
      is_chain (heap s') (components s') [1] \<and> next_component (heap s' 0) = Some 1 \<and>
      init_queue_start s' = Some 0 \<and>
      (\<exists>s1. step example_env (Resume 0) s' = Some s1 \<and> init_calls (trace s1) = [0] \<and>
         step example_env (Resume 0) s1 = Some (drain_loop example_env 0 (Some 1) s1)))"
proof -
  have c: "is_chain (heap two_components) (components two_components) [0, 1]"
    by (simp add: two_components_def)
  have f: "next_component (heap two_components 0) = Some 1"
    "init_queue_start two_components = Some 0" "coros two_components = [DrainCreated]"
    "trace two_components = []"
    by (simp_all add: two_components_def)
  from unlink_keeps_next_and_drain_pointer [OF c, of example_env 0] obtain s' where
    r: "removeComponent example_env (Comp 0) two_components = Some (PyNone, s')"
    and p: "is_chain (heap s') (components s') (remove1 0 [0, 1])"
      "next_component (heap s' 0) = next_component (heap two_components 0)"
      "init_queue_start s' = init_queue_start two_components"
      "init_calls (trace s') = init_calls (trace two_components)"
    and d: "\<forall>i. i < length (coros two_components) \<and> coros two_components ! i = DrainCreated \<and>
                init_queue_start two_components = Some 0 \<longrightarrow>
                (\<exists>s1. step example_env (Resume i) s' = Some s1 \<and>
                   init_calls (trace s1) = init_calls (trace s') @ [0] \<and>
                   coros s1 ! i = DrainAwait 0 \<and>
                   step example_env (Resume i) s1 =
                     Some (drain_loop example_env i
                            (next_component (heap two_components 0)) s1))"
    by (elim exE conjE)
  from d [rule_format, of 0] f obtain s1 where
    s1: "step example_env (Resume 0) s' = Some s1"
      "init_calls (trace s1) = init_calls (trace s') @ [0]"
      "step example_env (Resume 0) s1 = Some (drain_loop example_env 0 (Some 1) s1)"
    by auto
  have "\<exists>s1. step example_env (Resume 0) s' = Some s1 \<and> init_calls (trace s1) = [0] \<and>
         step example_env (Resume 0) s1 = Some (drain_loop example_env 0 (Some 1) s1)"
    using s1 p(4) f(4) by (intro exI [of _ s1]) simp
  with r p f have "\<exists>s'. removeComponent example_env (Comp 0) two_components = Some (PyNone, s') \<and>
      is_chain (heap s') (components s') [1] \<and> next_component (heap s' 0) = Some 1 \<and>
      init_queue_start s' = Some 0 \<and>
      (\<exists>s1. step example_env (Resume 0) s' = Some s1 \<and> init_calls (trace s1) = [0] \<and>
         step example_env (Resume 0) s1 = Some (drain_loop example_env 0 (Some 1) s1))"
    by (intro exI [of _ s']) simp
  with c show ?thesis by (rule conjI)
qed

text \<open>
  Claim C4 as stated fails for a component that is not in the registry. After the first of
  two components has been removed, the registry is the chain of the second alone; removing
  the first component once more passes the \<^verbatim>\<open>isinstance\<close> test, runs its teardown
  again and finds nothing to unlink: no error is logged.
\<close>

theorem remove_unregistered_logs_no_error:
  "run example_env (two_constructions @ [CallRemove (Comp 0), Resume 1]) initial_state =
     Some first_removed \<and>
   is_chain (heap first_removed) (components first_removed) [1] \<and>
   removeComponent example_env (Comp 0) first_removed =
     Some (PyNone,
           first_removed
             \<lparr>trace := trace first_removed @
                [Unsubscribe 0,
                 AsyncLog ''info'' [''Removed component'', ''component'', ''module'', ''A'',
                                    ''version'', ''1''],
                 Discovery 0 False]\<rparr>) \<and>
   log_errors
     (trace first_removed @
      [Unsubscribe 0,
       AsyncLog ''info'' [''Removed component'', ''component'', ''module'', ''A'',
                          ''version'', ''1''],
       Discovery 0 False]) = []"
  using run_first_removed
  by (simp add: removeComponent_def comp_remove_def unlink_walk.simps Let_def
      first_removed_def two_components_def example_env_def base_discovery_def)

text \<open>
  Claim C4, amended. When the argument is not a component (after a name has been looked
  up), \<^verbatim>\<open>removeComponent\<close> logs one error, returns \<^verbatim>\<open>False\<close> and changes
  nothing else. When the argument is a component that is not in the registry chain,
  \<^verbatim>\<open>removeComponent\<close> returns too and leaves the store, the head of the registry and
  the drain pointer as they were, but it logs no error: what it adds to the trace is the
  teardown of the component.
\<close>

theorem remove_rejects_non_component:
  "(resolve e arg = None \<longrightarrow>
      removeComponent e arg s =
        Some (PyBool False, s\<lparr>trace := trace s @ [LogError not_instance_msg]\<rparr>)) \<and>
   (\<forall>x xs. resolve e arg = Some x \<and> is_chain (heap s) (components s) xs \<and> x \<notin> set xs \<longrightarrow>
      (\<exists>r s'. removeComponent e arg s = Some (r, s') \<and>
         heap s' = heap s \<and> components s' = components s \<and>
         init_queue_start s' = init_queue_start s \<and>
         trace s' = trace (comp_remove e x s) \<and>
         log_errors (trace s') = log_errors (trace s)))"
proof (intro conjI allI impI)
  assume "resolve e arg = None"
  then show "removeComponent e arg s =
        Some (PyBool False, s\<lparr>trace := trace s @ [LogError not_instance_msg]\<rparr>)"
    by (simp add: removeComponent_def)
next
  fix x xs
  assume a: "resolve e arg = Some x \<and> is_chain (heap s) (components s) xs \<and> x \<notin> set xs"
  then have rs: "resolve e arg = Some x" and ch: "is_chain (heap s) (components s) xs"
    and nin: "x \<notin> set xs" by simp_all
  from removeComponent_Some [OF ch rs] obtain s' where
    r: "removeComponent e arg s = Some (PyNone, s')"
    and t: "trace s' = trace (comp_remove e x s)"
    and q: "init_queue_start s' = init_queue_start s"
    and u: "x \<notin> set xs \<longrightarrow> heap s' = heap s \<and> components s' = components s"
    by (elim exE conjE)
  have "log_errors (trace s') = log_errors (trace s)"
    by (simp add: t comp_remove_def Let_def)
  with r t q u nin show "\<exists>r s'. removeComponent e arg s = Some (r, s') \<and>
         heap s' = heap s \<and> components s' = components s \<and>
         init_queue_start s' = init_queue_start s \<and>
         trace s' = trace (comp_remove e x s) \<and>
         log_errors (trace s') = log_errors (trace s)"
    by (intro exI [of _ PyNone] exI [of _ s']) simp
qed

theorem remove_rejects_non_component_witness:
  "resolve example_env (Name ''second'') = None \<and>
   removeComponent example_env (Name ''second'') two_components =
     Some (PyBool False,
           two_components\<lparr>trace := trace two_components @ [LogError not_instance_msg]\<rparr>) \<and>
   resolve example_env (Comp 0) = Some 0 \<and>
   is_chain (heap first_removed) (components first_removed) [1] \<and> 0 \<notin> set [1::nat] \<and>
   (\<exists>r s'. removeComponent example_env (Comp 0) first_removed = Some (r, s') \<and>
      components s' = Some 1 \<and> log_errors (trace s') = [])"
proof -
  note th1 = remove_rejects_non_component [of example_env "Name ''second''" two_components]
  note th2 = remove_rejects_non_component [of example_env "Comp 0" first_removed]
  have n: "resolve example_env (Name ''second'') = None" by (simp add: example_env_def)
  have c: "resolve example_env (Comp 0) = Some 0" by simp
  have ch: "is_chain (heap first_removed) (components first_removed) [1]"
    by (simp add: first_removed_def two_components_def)
  have nin: "0 \<notin> set [1::nat]" by simp
  have f: "components first_removed = Some 1" "log_errors (trace first_removed) = []"
    by (simp_all add: first_removed_def)
  from th1 [THEN conjunct1] n have a:
    "removeComponent example_env (Name ''second'') two_components =
       Some (PyBool False,
             two_components\<lparr>trace := trace two_components @ [LogError not_instance_msg]\<rparr>)"
    by simp
  from th2 [THEN conjunct2, rule_format, of 0 "[1]"] c ch nin obtain r s' where
    "removeComponent example_env (Comp 0) first_removed = Some (r, s')"
    "components s' = components first_removed"
    "log_errors (trace s') = log_errors (trace first_removed)"
    by auto
  with f have "\<exists>r s'. removeComponent example_env (Comp 0) first_removed = Some (r, s') \<and>
      components s' = Some 1 \<and> log_errors (trace s') = []"
    by (intro exI [of _ r] exI [of _ s']) simp
  with n a c ch nin show ?thesis by (intro conjI)
qed




text \<open>
  Claim C6 against the code: with two components registered, the name of the first is
  resolved, its teardown runs and it is unlinked, and then \<^verbatim>\<open>removeComponent\<close>
  returns \<^verbatim>\<open>None\<close>, which is not truthy: the function ends without a
  \<^verbatim>\<open>return\<close> on this path.
\<close>

theorem removeComponent_success_returns_None:
  "run example_env two_constructions initial_state = Some two_components \<and>
   resolve example_env (Name ''first'') = Some 0 \<and>
   removeComponent example_env (Name ''first'') two_components =
     Some (PyNone,
           two_components
             \<lparr>components := Some 1,
              trace := [Unsubscribe 0,
                        AsyncLog ''info'' [''Removed component'', ''component'', ''module'',
                                           ''A'', ''version'', ''1''],
                        Discovery 0 False]\<rparr>) \<and>
   truthy PyNone = False"
  using run_two_constructions [of example_env]
  by (simp add: removeComponent_def comp_remove_def unlink_walk.simps Let_def
      two_components_def example_env_def base_discovery_def)

end
